theory Spec2Isabelle
  imports Main "HOL-Library.Word" "HOL-Library.Monad_Syntax"
begin

unbundle bit_operations_syntax

section \<open>Data model\<close>

text \<open>
  The allocator is C for an LP64 machine: \<open>size_t\<close>, \<open>intptr_t\<close> and pointers are
  64-bit words, and all arithmetic on them wraps around. A pointer is the address it
  holds; \<open>NULL\<close> is address 0.
\<close>

type_synonym addr = "64 word"
type_synonym size_t = "64 word"

definition NULL :: addr where
  "NULL = 0"

text \<open>
  The block header. \<open>freelist.c\<close> initialises one as
  \<^verbatim>\<open>Block FreeList = {-1, -1, &FreeList, &FreeList};\<close> and the code reads the fields
  \<open>capacity\<close>, \<open>size\<close>, \<open>prev\<close>, \<open>next\<close> and \<open>data\<close>. The fields \<open>size\<close> and
  \<open>next\<close> carry the suffix \<open>_b\<close> here.
\<close>

record Block =
  capacity :: size_t
  size_b :: size_t
  prev :: addr
  next_b :: addr

text \<open>The named slots of the \<open>Counters\<close> array.\<close>

datatype counter = HEAP_SIZE | BLOCKS | GROWS | SHRINKS | REUSES | MERGES | SPLITS

text \<open>
  The build-time constants come from headers that are not part of the sources at hand
  (\<open>malloc/block.h\<close>, \<open>malloc/freelist.h\<close>). They are parameters of the model:
  the alignment, \<open>sizeof(Block)\<close>, the trim threshold, the \<open>FIT\<close> selector, and the
  address of the global \<open>FreeList\<close> sentinel.
\<close>

record config =
  ALIGNMENT :: size_t
  sizeof_Block :: size_t
  TRIM_THRESHOLD :: size_t
  FIT :: nat
  FreeList :: addr

text \<open>
  Modelled from the spec: the macro \<open>ALIGN\<close> of \<open>malloc/block.h\<close> is missing from the
  sources. The specification says that a capacity is the requested size rounded up to the
  configured alignment; on \<open>size_t\<close> this is the usual mask idiom
  \<^verbatim>\<open>(size + (ALIGNMENT - 1)) & ~(ALIGNMENT - 1)\<close>.
\<close>

definition ALIGN :: "config \<Rightarrow> size_t \<Rightarrow> size_t" where
  "ALIGN cfg n = (n + (ALIGNMENT cfg - 1)) AND NOT (ALIGNMENT cfg - 1)"

text \<open>A value is aligned when it is a multiple of the alignment.\<close>

definition aligned :: "config \<Rightarrow> size_t \<Rightarrow> bool" where
  "aligned cfg n = (n mod ALIGNMENT cfg = 0)"

text \<open>
  The configurations the allocator is built with: the alignment is a power of two and
  the header size is a multiple of it (8 and 32 on LP64).
\<close>

definition valid_config :: "config \<Rightarrow> bool" where
  "valid_config cfg = ((\<exists>k<64. ALIGNMENT cfg = 2 ^ k) \<and> aligned cfg (sizeof_Block cfg))"

text \<open>
  The process state the code works on: the block headers in memory (a store from
  addresses to headers, the sentinel among them), the program break with the limits the
  operating system puts on it, and the counters. Reading or writing a header through an
  address that holds none is undefined behaviour; the model has no result (\<open>None\<close>) there.
\<close>

record heap =
  mem :: "addr \<rightharpoonup> Block"
  brk :: addr
  heap_min :: addr
  heap_max :: addr
  Counters :: "counter \<Rightarrow> size_t"

definition counter_add :: "counter \<Rightarrow> size_t \<Rightarrow> heap \<Rightarrow> heap" where
  "counter_add c n h = h\<lparr>Counters := (Counters h)(c := Counters h c + n)\<rparr>"

definition store_capacity :: "addr \<Rightarrow> size_t \<Rightarrow> heap \<Rightarrow> heap option" where
  "store_capacity a v h =
     (case mem h a of None \<Rightarrow> None
      | Some b \<Rightarrow> Some (h\<lparr>mem := (mem h)(a \<mapsto> b\<lparr>capacity := v\<rparr>)\<rparr>))"

definition store_size :: "addr \<Rightarrow> size_t \<Rightarrow> heap \<Rightarrow> heap option" where
  "store_size a v h =
     (case mem h a of None \<Rightarrow> None
      | Some b \<Rightarrow> Some (h\<lparr>mem := (mem h)(a \<mapsto> b\<lparr>size_b := v\<rparr>)\<rparr>))"

definition store_prev :: "addr \<Rightarrow> addr \<Rightarrow> heap \<Rightarrow> heap option" where
  "store_prev a v h =
     (case mem h a of None \<Rightarrow> None
      | Some b \<Rightarrow> Some (h\<lparr>mem := (mem h)(a \<mapsto> b\<lparr>prev := v\<rparr>)\<rparr>))"

definition store_next :: "addr \<Rightarrow> addr \<Rightarrow> heap \<Rightarrow> heap option" where
  "store_next a v h =
     (case mem h a of None \<Rightarrow> None
      | Some b \<Rightarrow> Some (h\<lparr>mem := (mem h)(a \<mapsto> b\<lparr>next_b := v\<rparr>)\<rparr>))"

text \<open>\<open>block->data\<close>: the payload starts right after the header.\<close>

definition data :: "config \<Rightarrow> addr \<Rightarrow> addr" where
  "data cfg block = block + sizeof_Block cfg"

text \<open>
  A header takes \<open>sizeof(Block)\<close> bytes of memory, and its four 8-byte fields take 32 of
  them. The state keeps a header as one record. It describes the memory as long as two
  headers at different addresses share no byte: a store to a field of one then changes no
  field of another. \<open>separate cfg h p\<close>: no header of the state starts less than a
  header's length above or below \<open>p\<close>, addresses wrapping around; a header at \<open>p\<close>
  itself is allowed. \<open>separated cfg h\<close>: this holds at every header of the state.

  The code writes a header at a new address in \<open>block_allocate\<close> and in \<open>block_split\<close>
  only. Where that header would share bytes with a header at another address, the stores
  change fields of both, which the state cannot express: the model has no result (\<open>None\<close>)
  there.
\<close>

definition header_bytes :: "config \<Rightarrow> nat" where
  "header_bytes cfg = max 32 (unat (sizeof_Block cfg))"

definition separate :: "config \<Rightarrow> heap \<Rightarrow> addr \<Rightarrow> bool" where
  "separate cfg h p =
     (\<forall>k\<in>{1..<header_bytes cfg}. mem h (p + of_nat k) = None \<and> mem h (p - of_nat k) = None)"

definition separated :: "config \<Rightarrow> heap \<Rightarrow> bool" where
  "separated cfg h = (\<forall>a. mem h a \<noteq> None \<longrightarrow> separate cfg h a)"

text \<open>Two states hold headers at the same addresses.\<close>

definition same_headers :: "heap \<Rightarrow> heap \<Rightarrow> bool" where
  "same_headers h h' = (\<forall>x. (mem h' x = None) = (mem h x = None))"

section \<open>The heap boundary primitive\<close>

text \<open>
  \<open>sbrk\<close> belongs to the C library. It moves the break by a signed increment and
  returns the old break, or \<open>(void *)-1\<close> when the new break would leave the range the
  operating system allows; an increment of 0 only reads the break.
\<close>

definition SBRK_FAILURE :: addr where
  "SBRK_FAILURE = - 1"

definition sbrk :: "size_t \<Rightarrow> heap \<Rightarrow> addr \<times> heap" where
  "sbrk increment h =
     (if increment = 0 then (brk h, h)
      else
        let nb = uint (brk h) + sint increment in
        if nb < uint (heap_min h) \<or> uint (heap_max h) < nb then (SBRK_FAILURE, h)
        else (brk h, h\<lparr>brk := word_of_int nb\<rparr>))"

section \<open>block.c\<close>


definition block_release :: "config \<Rightarrow> addr \<Rightarrow> heap \<Rightarrow> (bool \<times> heap) option" where
  "block_release cfg block h = do {
     b \<leftarrow> mem h block;
     let (boundary, h0) = sbrk 0 h;
     if data cfg block + capacity b = boundary \<and> TRIM_THRESHOLD cfg < capacity b + sizeof_Block cfg
     then
       let allocated = sizeof_Block cfg + capacity b;
           (r, h1) = sbrk (- allocated) h0
       in if r = SBRK_FAILURE then Some (False, h1)
          else Some (True, counter_add HEAP_SIZE (- allocated)
                             (counter_add SHRINKS 1 (counter_add BLOCKS (- 1) h1)))
     else Some (False, h0)
   }"

definition block_detach :: "addr \<Rightarrow> heap \<Rightarrow> (addr \<times> heap) option" where
  "block_detach block h =
     (if block \<noteq> NULL then do {
        b \<leftarrow> mem h block;
        let before = prev b;
        let after = next_b b;
        h1 \<leftarrow> store_next before after h;
        h2 \<leftarrow> store_prev after before h1;
        h3 \<leftarrow> store_next block block h2;
        h4 \<leftarrow> store_prev block block h3;
        Some (block, h4)
      } else Some (block, h))"

definition block_merge :: "config \<Rightarrow> addr \<Rightarrow> addr \<Rightarrow> heap \<Rightarrow> (bool \<times> heap) option" where
  "block_merge cfg dst src h = do {
     d \<leftarrow> mem h dst;
     if data cfg dst + capacity d = src then do {
       s \<leftarrow> mem h src;
       h1 \<leftarrow> store_capacity dst (capacity d + ALIGN cfg (capacity s + sizeof_Block cfg)) h;
       Some (True, counter_add BLOCKS (- 1) (counter_add MERGES 1 h1))
     } else Some (False, h)
   }"

text \<open>
  In \<open>block_split\<close> the first four assignments write the header of the new block at
  \<open>block->data + ALIGN(size)\<close>. When \<open>ALIGN(size) + sizeof(Block)\<close> wraps around to less
  than a header's length, that address lies inside the header of \<open>block\<close>; when the
  payload of \<open>block\<close> holds another header, it can lie inside that one. These are the
  cases without a result. In all others the model writes the new header in one step from
  the fields of \<open>block\<close>. This is what the four assignments do one after another, also
  when the new address holds a header already: when it is another block's, none of the
  four changes \<open>block\<close>; when it is \<open>block\<close> itself, \<open>ALIGN(size) + sizeof(Block)\<close> is 0
  and the first two assignments store the capacity that was there.
\<close>

definition block_split :: "config \<Rightarrow> addr \<Rightarrow> size_t \<Rightarrow> heap \<Rightarrow> (addr \<times> heap) option" where
  "block_split cfg block sz h = do {
     b \<leftarrow> mem h block;
     if ALIGN cfg sz + sizeof_Block cfg < capacity b then do {
       let new_block = data cfg block + ALIGN cfg sz;
       if separate cfg h new_block then do {
         let h1 = h\<lparr>mem := (mem h)(new_block \<mapsto>
                    \<lparr>capacity = capacity b - ALIGN cfg sz - sizeof_Block cfg,
                     size_b = capacity b - ALIGN cfg sz - sizeof_Block cfg,
                     prev = block,
                     next_b = next_b b\<rparr>)\<rparr>;
         b1 \<leftarrow> mem h1 block;
         h2 \<leftarrow> store_prev (next_b b1) new_block h1;
         h3 \<leftarrow> store_capacity block (ALIGN cfg sz) h2;
         h4 \<leftarrow> store_size block sz h3;
         h5 \<leftarrow> store_next block new_block h4;
         Some (block, counter_add BLOCKS 1 (counter_add SPLITS 1 h5))
       } else None
     } else Some (block, h)
   }"

section \<open>freelist.c\<close>



text \<open>
  Every loop of the file walks \<open>cur\<close> from \<open>FreeList.next\<close> until it is back at the
  sentinel. On a list whose links do not lead back, the walk does not end: the loops are
  partial functions, with no result in that case.
\<close>

partial_function (option) search_ff_loop ::
  "config \<Rightarrow> size_t \<Rightarrow> heap \<Rightarrow> addr \<Rightarrow> (addr \<times> heap) option" where
  "search_ff_loop cfg sz h cur =
     (if cur \<noteq> FreeList cfg then do {
        c \<leftarrow> mem h cur;
        if sz \<le> capacity c then do {
          h1 \<leftarrow> store_size cur sz h;
          Some (cur, h1)
        } else search_ff_loop cfg sz h (next_b c)
      } else Some (NULL, h))"

definition free_list_search_ff :: "config \<Rightarrow> size_t \<Rightarrow> heap \<Rightarrow> (addr \<times> heap) option" where
  "free_list_search_ff cfg sz h = do {
     fl \<leftarrow> mem h (FreeList cfg);
     search_ff_loop cfg sz h (next_b fl)
   }"

partial_function (option) search_bf_loop ::
  "config \<Rightarrow> size_t \<Rightarrow> heap \<Rightarrow> addr \<Rightarrow> addr \<Rightarrow> addr option" where
  "search_bf_loop cfg sz h smallest cur =
     (if cur \<noteq> FreeList cfg then do {
        c \<leftarrow> mem h cur;
        smallest1 \<leftarrow>
          (if sz \<le> capacity c \<and> smallest = NULL then Some cur
           else if sz \<le> capacity c then do {
             s \<leftarrow> mem h smallest;
             Some (if capacity c < capacity s then cur else smallest)
           } else Some smallest);
        search_bf_loop cfg sz h smallest1 (next_b c)
      } else Some smallest)"

definition free_list_search_bf :: "config \<Rightarrow> size_t \<Rightarrow> heap \<Rightarrow> (addr \<times> heap) option" where
  "free_list_search_bf cfg sz h = do {
     fl \<leftarrow> mem h (FreeList cfg);
     smallest \<leftarrow> search_bf_loop cfg sz h NULL (next_b fl);
     if smallest \<noteq> NULL then do {
       h1 \<leftarrow> store_size smallest sz h;
       Some (smallest, h1)
     } else Some (smallest, h)
   }"

partial_function (option) search_wf_loop ::
  "config \<Rightarrow> size_t \<Rightarrow> heap \<Rightarrow> addr \<Rightarrow> addr \<Rightarrow> addr option" where
  "search_wf_loop cfg sz h largest cur =
     (if cur \<noteq> FreeList cfg then do {
        c \<leftarrow> mem h cur;
        largest1 \<leftarrow>
          (if sz \<le> capacity c \<and> largest = NULL then Some cur
           else if sz \<le> capacity c then do {
             l \<leftarrow> mem h largest;
             Some (if capacity l < capacity c then cur else largest)
           } else Some largest);
        search_wf_loop cfg sz h largest1 (next_b c)
      } else Some largest)"

definition free_list_search_wf :: "config \<Rightarrow> size_t \<Rightarrow> heap \<Rightarrow> (addr \<times> heap) option" where
  "free_list_search_wf cfg sz h = do {
     fl \<leftarrow> mem h (FreeList cfg);
     largest \<leftarrow> search_wf_loop cfg sz h NULL (next_b fl);
     if largest \<noteq> NULL then do {
       h1 \<leftarrow> store_size largest sz h;
       Some (largest, h1)
     } else Some (largest, h)
   }"

text \<open>
  The wrapper picks the algorithm by the compile-time setting \<open>FIT\<close> (0 first fit,
  1 worst fit, 2 best fit; with any other setting no search is compiled in and the
  block stays \<open>NULL\<close>) and counts a reuse when a block was found.
\<close>

definition free_list_search :: "config \<Rightarrow> size_t \<Rightarrow> heap \<Rightarrow> (addr \<times> heap) option" where
  "free_list_search cfg sz h = do {
     (block, h1) \<leftarrow>
       (if FIT cfg = 0 then free_list_search_ff cfg sz h
        else if FIT cfg = 1 then free_list_search_wf cfg sz h
        else if FIT cfg = 2 then free_list_search_bf cfg sz h
        else Some (NULL, h));
     if block \<noteq> NULL then Some (block, counter_add REUSES 1 h1) else Some (block, h1)
   }"

partial_function (option) insert_loop ::
  "config \<Rightarrow> addr \<Rightarrow> heap \<Rightarrow> addr \<Rightarrow> (bool \<times> heap) option" where
  "insert_loop cfg block h cur =
     (if cur \<noteq> FreeList cfg then do {
        (m1, h1) \<leftarrow> block_merge cfg block cur h;
        if m1 then do {
          c1 \<leftarrow> mem h1 cur;
          h2 \<leftarrow> store_prev block (prev c1) h1;
          c2 \<leftarrow> mem h2 cur;
          h3 \<leftarrow> store_next block (next_b c2) h2;
          c3 \<leftarrow> mem h3 cur;
          h4 \<leftarrow> store_next (prev c3) block h3;
          c4 \<leftarrow> mem h4 cur;
          h5 \<leftarrow> store_prev (next_b c4) block h4;
          Some (True, h5)
        } else do {
          (m2, h2) \<leftarrow> block_merge cfg cur block h1;
          if m2 then Some (True, h2)
          else do {
            c \<leftarrow> mem h2 cur;
            insert_loop cfg block h2 (next_b c)
          }
        }
      } else Some (False, h))"

definition free_list_insert :: "config \<Rightarrow> addr \<Rightarrow> heap \<Rightarrow> heap option" where
  "free_list_insert cfg block h = do {
     fl \<leftarrow> mem h (FreeList cfg);
     (merged, h1) \<leftarrow> insert_loop cfg block h (next_b fl);
     if merged then Some h1
     else do {
       fl1 \<leftarrow> mem h1 (FreeList cfg);
       let tail = prev fl1;
       h2 \<leftarrow> store_next tail block h1;
       h3 \<leftarrow> store_prev (FreeList cfg) block h2;
       h4 \<leftarrow> store_next block (FreeList cfg) h3;
       h5 \<leftarrow> store_prev block tail h4;
       Some h5
     }
   }"

partial_function (option) length_loop ::
  "config \<Rightarrow> heap \<Rightarrow> size_t \<Rightarrow> addr \<Rightarrow> size_t option" where
  "length_loop cfg h counter cur =
     (if cur \<noteq> FreeList cfg then do {
        c \<leftarrow> mem h cur;
        length_loop cfg h (counter + 1) (next_b c)
      } else Some counter)"

definition free_list_length :: "config \<Rightarrow> heap \<Rightarrow> size_t option" where
  "free_list_length cfg h = do {
     fl \<leftarrow> mem h (FreeList cfg);
     length_loop cfg h 0 (next_b fl)
   }"

section \<open>The free list as a list of addresses\<close>

text \<open>
  \<open>path h a xs z\<close>: following \<open>next\<close> from \<open>a\<close> visits the headers at \<open>xs\<close> in this
  order, none of them \<open>z\<close>, and arrives at \<open>z\<close>. The free list holds the blocks \<open>bs\<close>, in
  list order, when the path from \<open>FreeList.next\<close> along \<open>bs\<close> is back at the sentinel.
\<close>

fun path :: "heap \<Rightarrow> addr \<Rightarrow> addr list \<Rightarrow> addr \<Rightarrow> bool" where
  "path h a [] z = (a = z)"
| "path h a (x # xs) z =
     (a = x \<and> x \<noteq> z \<and> (case mem h x of None \<Rightarrow> False | Some b \<Rightarrow> path h (next_b b) xs z))"

definition free_list :: "config \<Rightarrow> heap \<Rightarrow> addr list \<Rightarrow> bool" where
  "free_list cfg h bs =
     (case mem h (FreeList cfg) of None \<Rightarrow> False
      | Some fl \<Rightarrow> path h (next_b fl) bs (FreeList cfg))"

definition cap :: "heap \<Rightarrow> addr \<Rightarrow> size_t" where
  "cap h a = (case mem h a of None \<Rightarrow> 0 | Some b \<Rightarrow> capacity b)"

text \<open>
  The choices of the best-fit and the worst-fit loop, as folds over the list of blocks
  the loop visits (the accumulator is \<open>smallest\<close>, respectively \<open>largest\<close>).
\<close>

fun smallest_of :: "heap \<Rightarrow> size_t \<Rightarrow> addr \<Rightarrow> addr list \<Rightarrow> addr" where
  "smallest_of h sz s [] = s"
| "smallest_of h sz s (x # xs) =
     smallest_of h sz (if sz \<le> cap h x \<and> (s = NULL \<or> cap h x < cap h s) then x else s) xs"

fun largest_of :: "heap \<Rightarrow> size_t \<Rightarrow> addr \<Rightarrow> addr list \<Rightarrow> addr" where
  "largest_of h sz l [] = l"
| "largest_of h sz l (x # xs) =
     largest_of h sz (if sz \<le> cap h x \<and> (l = NULL \<or> cap h l < cap h x) then x else l) xs"

section \<open>The circular doubly-linked list\<close>

text \<open>
  The four fields of the headers as four maps on addresses.
\<close>

definition nexts :: "heap \<Rightarrow> addr \<rightharpoonup> addr" where
  "nexts h a = map_option next_b (mem h a)"

definition prevs :: "heap \<Rightarrow> addr \<rightharpoonup> addr" where
  "prevs h a = map_option prev (mem h a)"

definition caps :: "heap \<Rightarrow> addr \<rightharpoonup> size_t" where
  "caps h a = map_option capacity (mem h a)"

definition sizes :: "heap \<Rightarrow> addr \<rightharpoonup> size_t" where
  "sizes h a = map_option size_b (mem h a)"

text \<open>
  \<open>linked h x y\<close>: \<open>x->next\<close> is \<open>y\<close> and \<open>y->prev\<close> is \<open>x\<close>. The free list is the
  circular list of the blocks \<open>bs\<close> when sentinel and blocks are pairwise distinct and
  consecutive members of sentinel, \<open>bs\<close>, sentinel are linked both ways.
\<close>

definition linked :: "heap \<Rightarrow> addr \<Rightarrow> addr \<Rightarrow> bool" where
  "linked h x y = (nexts h x = Some y \<and> prevs h y = Some x)"

fun chain :: "heap \<Rightarrow> addr list \<Rightarrow> bool" where
  "chain h (x # y # ys) = (linked h x y \<and> chain h (y # ys))"
| "chain h [x] = True"
| "chain h [] = True"

definition circular :: "config \<Rightarrow> heap \<Rightarrow> addr list \<Rightarrow> bool" where
  "circular cfg h bs =
     (distinct (FreeList cfg # bs) \<and> chain h (FreeList cfg # bs @ [FreeList cfg]))"

text \<open>The adjacency test of \<open>block_merge\<close>: the payload of \<open>x\<close> ends where \<open>y\<close> starts.\<close>

definition adjacent :: "config \<Rightarrow> heap \<Rightarrow> addr \<Rightarrow> addr \<Rightarrow> bool" where
  "adjacent cfg h x y = (case mem h x of None \<Rightarrow> False | Some b \<Rightarrow> data cfg x + capacity b = y)"

text \<open>Inserting several blocks one after another.\<close>

fun insert_all :: "config \<Rightarrow> addr list \<Rightarrow> heap \<Rightarrow> heap option" where
  "insert_all cfg [] h = Some h"
| "insert_all cfg (x # xs) h = free_list_insert cfg x h \<bind> insert_all cfg xs"

section \<open>Sequences of operations\<close>







text \<open>
  The invariant of the heap: the sentinel lies below the heap; every \<open>next\<close> pointer of a
  header points to a header; and every block other than the sentinel has
  \<open>size \<le> capacity\<close>, an aligned capacity, and lies with header and payload between the
  start of the heap and the break.
\<close>

definition block_ok :: "config \<Rightarrow> heap \<Rightarrow> addr \<Rightarrow> Block \<Rightarrow> bool" where
  "block_ok cfg h a b =
     (size_b b \<le> capacity b \<and> aligned cfg (capacity b) \<and> heap_min h \<le> a \<and>
      unat a + unat (sizeof_Block cfg) + unat (capacity b) \<le> unat (brk h))"

definition heap_inv :: "config \<Rightarrow> heap \<Rightarrow> bool" where
  "heap_inv cfg h =
     (FreeList cfg < heap_min h \<and> heap_min h \<le> brk h \<and> mem h (FreeList cfg) \<noteq> None \<and>
      (\<forall>a b. mem h a = Some b \<longrightarrow>
         mem h (next_b b) \<noteq> None \<and> (a \<noteq> FreeList cfg \<longrightarrow> block_ok cfg h a b)))"

section \<open>Example states\<close>

text \<open>
  The LP64 configuration (alignment 8, a header of four 8-byte fields), with the sentinel
  at address 4096 and the heap starting at 8192.
\<close>

definition example_config :: config where
  "example_config =
     \<lparr>ALIGNMENT = 8, sizeof_Block = 32, TRIM_THRESHOLD = 1024, FIT = 0, FreeList = 4096\<rparr>"

text \<open>
  States of the heap over it: two used blocks that are physically adjacent; one free
  block; three free blocks of capacities 10, 30, 20 in list order; a free block followed
  in memory by a used one; two used blocks with a gap between them; and two used blocks
  that are physically adjacent, the second with a capacity of 30, which is not a multiple
  of 8.
\<close>

definition two_blocks :: heap where
  "two_blocks =
     \<lparr>mem = [4096 \<mapsto> \<lparr>capacity = - 1, size_b = - 1, prev = 4096, next_b = 4096\<rparr>,
             8192 \<mapsto> \<lparr>capacity = 16, size_b = 10, prev = 8192, next_b = 8192\<rparr>,
             8240 \<mapsto> \<lparr>capacity = 24, size_b = 24, prev = 8240, next_b = 8240\<rparr>],
      brk = 8296, heap_min = 8192, heap_max = 65536, Counters = (\<lambda>c. 0)\<rparr>"

definition one_free_block :: heap where
  "one_free_block =
     \<lparr>mem = [4096 \<mapsto> \<lparr>capacity = - 1, size_b = - 1, prev = 8192, next_b = 8192\<rparr>,
             8192 \<mapsto> \<lparr>capacity = 64, size_b = 64, prev = 4096, next_b = 4096\<rparr>],
      brk = 8288, heap_min = 8192, heap_max = 65536, Counters = (\<lambda>c. 0)\<rparr>"

definition three_free_blocks :: heap where
  "three_free_blocks =
     \<lparr>mem = [4096 \<mapsto> \<lparr>capacity = - 1, size_b = - 1, prev = 8400, next_b = 8192\<rparr>,
             8192 \<mapsto> \<lparr>capacity = 10, size_b = 10, prev = 4096, next_b = 8296\<rparr>,
             8296 \<mapsto> \<lparr>capacity = 30, size_b = 30, prev = 8192, next_b = 8400\<rparr>,
             8400 \<mapsto> \<lparr>capacity = 20, size_b = 20, prev = 8296, next_b = 4096\<rparr>],
      brk = 8452, heap_min = 8192, heap_max = 65536, Counters = (\<lambda>c. 0)\<rparr>"

definition one_free_one_used :: heap where
  "one_free_one_used =
     \<lparr>mem = [4096 \<mapsto> \<lparr>capacity = - 1, size_b = - 1, prev = 8192, next_b = 8192\<rparr>,
             8192 \<mapsto> \<lparr>capacity = 16, size_b = 10, prev = 4096, next_b = 4096\<rparr>,
             8240 \<mapsto> \<lparr>capacity = 24, size_b = 24, prev = 8240, next_b = 8240\<rparr>],
      brk = 8296, heap_min = 8192, heap_max = 65536, Counters = (\<lambda>c. 0)\<rparr>"

definition spaced_blocks :: heap where
  "spaced_blocks =
     \<lparr>mem = [4096 \<mapsto> \<lparr>capacity = - 1, size_b = - 1, prev = 4096, next_b = 4096\<rparr>,
             8192 \<mapsto> \<lparr>capacity = 16, size_b = 10, prev = 8192, next_b = 8192\<rparr>,
             8296 \<mapsto> \<lparr>capacity = 24, size_b = 24, prev = 8296, next_b = 8296\<rparr>],
      brk = 8352, heap_min = 8192, heap_max = 65536, Counters = (\<lambda>c. 0)\<rparr>"

definition unaligned_capacity :: heap where
  "unaligned_capacity =
     \<lparr>mem = [4096 \<mapsto> \<lparr>capacity = - 1, size_b = - 1, prev = 4096, next_b = 4096\<rparr>,
             8192 \<mapsto> \<lparr>capacity = 16, size_b = 10, prev = 8192, next_b = 8192\<rparr>,
             8240 \<mapsto> \<lparr>capacity = 30, size_b = 30, prev = 8240, next_b = 8240\<rparr>],
      brk = 8302, heap_min = 8192, heap_max = 65536, Counters = (\<lambda>c. 0)\<rparr>"

section \<open>Arithmetic of alignment\<close>

lemma and_not_mask_diff: "(w :: 64 word) AND NOT (mask k) = w - (w AND mask k)"
proof -
  have "w - (w AND mask k) = w AND NOT (w AND mask k)"
    by (rule disjunctive_diff) (simp add: bit_simps)
  also have "\<dots> = w AND NOT (mask k)"
    by (auto simp: bit_eq_iff bit_simps)
  finally show ?thesis by simp
qed

lemma aligned_mask: "ALIGNMENT cfg = 2 ^ k \<Longrightarrow> aligned cfg n = (n AND mask k = 0)"
  by (simp add: aligned_def take_bit_eq_mod [symmetric] take_bit_eq_mask)

lemma ALIGN_mask: "ALIGNMENT cfg = 2 ^ k \<Longrightarrow> ALIGN cfg n = (n + mask k) - ((n + mask k) AND mask k)"
  by (simp add: ALIGN_def mask_eq_exp_minus_1 [symmetric] and_not_mask_diff)

lemma ALIGN_add_aligned:
  assumes "valid_config cfg" "aligned cfg a"
  shows "ALIGN cfg (n + a) = ALIGN cfg n + a"
proof -
  from assms(1) obtain k where k: "ALIGNMENT cfg = 2 ^ k"
    by (auto simp: valid_config_def)
  from assms(2) k have a: "a AND mask k = 0" by (simp add: aligned_mask)
  have "(n + a + mask k) AND mask k = ((n + mask k) + (a AND mask k)) AND mask k"
    by (simp only: mask_eqs(2)) (simp add: add_ac)
  then have "(n + a + mask k) AND mask k = (n + mask k) AND mask k"
    by (simp add: a)
  then show ?thesis by (simp add: ALIGN_mask [OF k])
qed


lemma ALIGN_0: "ALIGN cfg 0 = 0"
  by (simp add: ALIGN_def)

lemma ALIGN_of_aligned:
  assumes "valid_config cfg" "aligned cfg a"
  shows "ALIGN cfg a = a"
  using ALIGN_add_aligned [OF assms, of 0] by (simp add: ALIGN_0)

lemma valid_example_config: "valid_config example_config"
  unfolding valid_config_def aligned_def example_config_def
  by (auto intro: exI [of _ 3])

section \<open>Reading and writing the state\<close>

lemma mem_counter_add [simp]: "mem (counter_add c n h) = mem h"
  by (simp add: counter_add_def)

lemma brk_counter_add [simp]: "brk (counter_add c n h) = brk h"
  by (simp add: counter_add_def)

lemma unat_bound: "unat (x :: size_t) < 2 ^ 64"
  using unsigned_less [of x, where 'a = nat] by simp

lemma header_bytes_bound: "header_bytes cfg < 2 ^ 64"
  using unsigned_less [where 'a = nat, of "sizeof_Block cfg"] by (simp add: header_bytes_def)

lemma separateI:
  assumes "\<And>a. mem h a \<noteq> None \<Longrightarrow>
             a = p \<or> (header_bytes cfg \<le> unat (a - p) \<and> header_bytes cfg \<le> unat (p - a))"
  shows "separate cfg h p"
  unfolding separate_def
proof (intro ballI conjI)
  fix k assume k: "k \<in> {1..<header_bytes cfg}"
  then have "k < 2 ^ 64" using header_bytes_bound [of cfg] by simp
  then have uk: "unat (of_nat k :: addr) = k" by (simp add: of_nat_inverse)
  have nz: "(of_nat k :: addr) \<noteq> 0"
    using uk k by (metis atLeastLessThan_iff not_one_le_zero unat_0)
  show "mem h (p + of_nat k) = None"
  proof (rule ccontr)
    assume "mem h (p + of_nat k) \<noteq> None"
    from assms [OF this] nz have "header_bytes cfg \<le> unat (p + of_nat k - p)" by auto
    then show False using uk k by simp
  qed
  show "mem h (p - of_nat k) = None"
  proof (rule ccontr)
    assume "mem h (p - of_nat k) \<noteq> None"
    from assms [OF this] nz have "header_bytes cfg \<le> unat (p - (p - of_nat k))" by auto
    then show False using uk k by simp
  qed
qed

lemma separate_one_free_block:
  "separate example_config one_free_block 4096"
  "separate example_config one_free_block 8192"
  "separate example_config one_free_block 8240"
  by (rule separateI,
      auto simp: one_free_block_def header_bytes_def example_config_def split: if_splits)+

lemma separated_one_free_block: "separated example_config one_free_block"
  unfolding separated_def using separate_one_free_block
  by (auto simp: one_free_block_def split: if_splits)

section \<open>Headers that share no bytes\<close>

text \<open>
  Only \<open>block_allocate\<close> and \<open>block_split\<close> add a header to the state, at an address
  that is separate from the others; every other operation keeps the headers where they
  are. So the headers of the initial state, and of every state that a sequence of
  operations reaches from it, share no bytes.
\<close>

lemma same_headers_refl [simp]: "same_headers h h"
  by (simp add: same_headers_def)


lemma same_headers_counter_add [simp]:
  "same_headers h (counter_add c n h') = same_headers h h'"
  by (simp add: same_headers_def)

lemma store_same_headers:
  "store_capacity a v h = Some h' \<Longrightarrow> same_headers h h'"
  "store_size a v h = Some h' \<Longrightarrow> same_headers h h'"
  "store_prev a w h = Some h' \<Longrightarrow> same_headers h h'"
  "store_next a w h = Some h' \<Longrightarrow> same_headers h h'"
  by (auto simp: same_headers_def store_capacity_def store_size_def store_prev_def
      store_next_def split: option.splits if_splits)







lemma separated_same_headers:
  "same_headers h h' \<Longrightarrow> separated cfg h \<Longrightarrow> separated cfg h'"
  by (simp add: same_headers_def separated_def separate_def)

lemma separate_sym:
  assumes "separate cfg h p" "mem h a \<noteq> None" "a \<noteq> p"
  shows "\<forall>k\<in>{1..<header_bytes cfg}. a + of_nat k \<noteq> p \<and> a - of_nat k \<noteq> p"
proof (intro ballI conjI notI)
  fix k assume k: "k \<in> {1..<header_bytes cfg}"
  { assume "a + of_nat k = p"
    then have "p - of_nat k = a" by auto
    with assms(1,2) k show False by (auto simp: separate_def) }
  { assume "a - of_nat k = p"
    then have "p + of_nat k = a" by auto
    with assms(1,2) k show False by (auto simp: separate_def) }
qed

lemma separated_new_header:
  assumes sd: "separated cfg h" and sp: "separate cfg h p"
    and m: "\<forall>x. (mem h' x = None) = (x \<noteq> p \<and> mem h x = None)"
  shows "separated cfg h'"
  unfolding separated_def
proof (intro allI impI)
  fix a assume a: "mem h' a \<noteq> None"
  show "separate cfg h' a"
  proof (cases "a = p")
    case True
    have "p + of_nat k \<noteq> p \<and> p - of_nat k \<noteq> p" if "k \<in> {1..<header_bytes cfg}" for k
    proof -
      from that have "k < 2 ^ 64" using header_bytes_bound [of cfg] by simp
      then have "unat (of_nat k :: addr) = k" by (simp add: of_nat_inverse)
      with that have "(of_nat k :: addr) \<noteq> 0" by (metis atLeastLessThan_iff not_one_le_zero unat_0)
      then show ?thesis by simp
    qed
    with sp True show ?thesis by (simp add: separate_def m)
  next
    case False
    with a m have ha: "mem h a \<noteq> None" by simp
    with sd have "separate cfg h a" by (simp add: separated_def)
    with separate_sym [OF sp ha False] show ?thesis by (simp add: separate_def m)
  qed
qed


lemma block_split_separated:
  assumes res: "block_split cfg block sz h = Some (r, h')" and sd: "separated cfg h"
  shows "separated cfg h'"
proof -
  from res obtain b where b: "mem h block = Some b"
    by (auto simp: block_split_def split: bind_splits)
  show ?thesis
  proof (cases "ALIGN cfg sz + sizeof_Block cfg < capacity b")
    case False
    with res b sd show ?thesis by (simp add: block_split_def)
  next
    case True
    define new where "new = data cfg block + ALIGN cfg sz"
    define h1 where "h1 = h\<lparr>mem := (mem h)(new \<mapsto>
      \<lparr>capacity = capacity b - ALIGN cfg sz - sizeof_Block cfg,
       size_b = capacity b - ALIGN cfg sz - sizeof_Block cfg, prev = block, next_b = next_b b\<rparr>)\<rparr>"
    from res b True obtain b1 :: Block and h2 h3 h4 h5 where
      sp: "separate cfg h new"
      and s: "store_prev (next_b b1) new h1 = Some h2"
        "store_capacity block (ALIGN cfg sz) h2 = Some h3" "store_size block sz h3 = Some h4"
        "store_next block new h4 = Some h5"
        "h' = counter_add BLOCKS 1 (counter_add SPLITS 1 h5)"
      unfolding block_split_def h1_def new_def
      by (auto simp: Let_def split: bind_splits if_splits)
    have "separated cfg h1"
      by (rule separated_new_header [OF sd sp]) (simp add: h1_def)
    moreover from s(1-4) have "same_headers h1 h5"
      by (auto simp: same_headers_def dest!: store_same_headers)
    ultimately have "separated cfg h5" by (rule separated_same_headers [rotated])
    then show ?thesis by (simp add: s(5) separated_def separate_def)
  qed
qed




section \<open>Merging two blocks\<close>

text \<open>
  Claim C1, amended. For blocks \<open>dst\<close> and \<open>src\<close>, \<open>block_merge dst src\<close> returns true
  exactly when \<open>dst->data + dst->capacity\<close> is the address of \<open>src\<close>. On success the
  capacity of \<open>dst\<close> is its old capacity plus \<open>ALIGN\<close> of the old capacity of \<open>src\<close> plus
  the header size, and the size field of \<open>dst\<close> is unchanged. If moreover the capacity of
  \<open>src\<close> is a multiple of the alignment, header plus capacity of the merged block is the
  sum of header plus capacity of the two original blocks.
\<close>

theorem block_merge_adjacent:
  assumes cfg: "valid_config cfg"
    and d: "mem h dst = Some d" and s: "mem h src = Some s"
  shows "\<exists>h'. block_merge cfg dst src h = Some (data cfg dst + capacity d = src, h') \<and>
           (data cfg dst + capacity d = src \<longrightarrow>
              (\<exists>d'. mem h' dst = Some d' \<and>
                 capacity d' = capacity d + ALIGN cfg (capacity s) + sizeof_Block cfg \<and>
                 size_b d' = size_b d \<and>
                 (aligned cfg (capacity s) \<longrightarrow>
                    sizeof_Block cfg + capacity d' =
                      (sizeof_Block cfg + capacity d) + (sizeof_Block cfg + capacity s))))"
proof (cases "data cfg dst + capacity d = src")
  case False
  then show ?thesis using d by (simp add: block_merge_def)
next
  case True
  have hdr: "aligned cfg (sizeof_Block cfg)"
    using cfg by (simp add: valid_config_def)
  have A: "ALIGN cfg (capacity s + sizeof_Block cfg) = ALIGN cfg (capacity s) + sizeof_Block cfg"
    by (rule ALIGN_add_aligned [OF cfg hdr])
  have B: "aligned cfg (capacity s) \<Longrightarrow> ALIGN cfg (capacity s) = capacity s"
    by (rule ALIGN_of_aligned [OF cfg])
  show ?thesis
    using True d s by (auto simp: block_merge_def store_capacity_def A B)
qed

theorem block_merge_adjacent_witness:
  "valid_config example_config \<and>
   (\<exists>h'. block_merge example_config 8192 8240 two_blocks = Some (True, h') \<and>
      (\<exists>d'. mem h' 8192 = Some d' \<and> capacity d' = 72 \<and> size_b d' = 10))"
  using block_merge_adjacent [OF valid_example_config, of two_blocks 8192
      "\<lparr>capacity = 16, size_b = 10, prev = 8192, next_b = 8192\<rparr>" 8240
      "\<lparr>capacity = 24, size_b = 24, prev = 8240, next_b = 8240\<rparr>"]
    valid_example_config
  by (auto simp: two_blocks_def example_config_def data_def ALIGN_def aligned_def)

text \<open>
  Claim C1 as stated fails for a source block whose capacity is not a multiple of the
  alignment, where \<open>ALIGN\<close> rounds it up. Merging the block of capacity 30 at 8240 into
  the block of capacity 16 at 8192 gives the capacity \<open>16 + ALIGN(30) + 32 = 80\<close>: the
  merged block takes \<open>32 + 80 = 112\<close> bytes, the two original blocks took
  \<open>(32 + 16) + (32 + 30) = 110\<close>.
\<close>

theorem block_merge_unaligned_counterexample:
  "map_option (\<lambda>(r, h'). (r, caps h' 8192))
     (block_merge example_config 8192 8240 unaligned_capacity) = Some (True, Some 80) \<and>
   ALIGN example_config 30 = 32 \<and>
   sizeof_Block example_config + 80 \<noteq>
     (sizeof_Block example_config + 16) + (sizeof_Block example_config + 30)"
  by (simp add: block_merge_def store_capacity_def unaligned_capacity_def example_config_def
      data_def ALIGN_def caps_def)

text \<open>
  Claim C9. When \<open>dst\<close> and \<open>src\<close> are not physically adjacent, \<open>block_merge\<close> returns
  false and leaves the whole state as it was: every field of both blocks and every
  counter. When it succeeds, the header of \<open>src\<close> is still what it was.
\<close>

theorem block_merge_frame:
  assumes d: "mem h dst = Some d" and s: "mem h src = Some s"
  shows "\<exists>h'. block_merge cfg dst src h = Some (data cfg dst + capacity d = src, h') \<and>
           mem h' src = Some s \<and>
           (data cfg dst + capacity d \<noteq> src \<longrightarrow> h' = h)"
proof (cases "data cfg dst + capacity d = src")
  case False
  then show ?thesis using d s by (simp add: block_merge_def)
next
  case True
  show ?thesis
  proof (cases "dst = src")
    case False
    then show ?thesis using True d s by (auto simp: block_merge_def store_capacity_def)
  next
    case same: True
    with d s have ds: "d = s" by simp
    from True same have "capacity s + sizeof_Block cfg = 0"
      by (simp add: data_def ds algebra_simps)
    then show ?thesis
      using True d s same by (auto simp: block_merge_def store_capacity_def ALIGN_0 ds)
  qed
qed

theorem block_merge_frame_witness:
  "\<exists>h'. block_merge example_config 8240 8192 two_blocks = Some (False, h') \<and>
      mem h' 8192 = Some \<lparr>capacity = 16, size_b = 10, prev = 8192, next_b = 8192\<rparr> \<and> h' = two_blocks"
  using block_merge_frame [of two_blocks 8240
      "\<lparr>capacity = 24, size_b = 24, prev = 8240, next_b = 8240\<rparr>" 8192
      "\<lparr>capacity = 16, size_b = 10, prev = 8192, next_b = 8192\<rparr>" example_config]
  by (auto simp: two_blocks_def example_config_def data_def)

section \<open>Releasing a block\<close>

lemma sbrk_0 [simp]: "sbrk 0 h = (brk h, h)"
  by (simp add: sbrk_def)

text \<open>
  Claim C6. \<open>block_release\<close> returns true only if the payload of the block ends at the
  current break, header size plus capacity exceeds the trim threshold, and the shrinking
  \<open>sbrk\<close> call succeeds (and it returns true whenever all three hold). A block whose
  payload does not end at the break gets false whatever its capacity, as an ordinary
  result, with the state untouched.
\<close>

theorem block_release_conditions:
  assumes b: "mem h block = Some b"
  shows "\<exists>h'. block_release cfg block h =
            Some (data cfg block + capacity b = brk h \<and>
                  TRIM_THRESHOLD cfg < sizeof_Block cfg + capacity b \<and>
                  fst (sbrk (- (sizeof_Block cfg + capacity b)) h) \<noteq> SBRK_FAILURE, h') \<and>
          (data cfg block + capacity b \<noteq> brk h \<longrightarrow> h' = h)"
  using b by (auto simp: block_release_def Let_def add.commute split: prod.splits)

theorem block_release_conditions_witness:
  "(\<exists>h'. block_release example_config 8192 two_blocks = Some (False, h') \<and> h' = two_blocks) \<and>
   data example_config 8192 + 16 \<noteq> brk two_blocks"
  using block_release_conditions [of two_blocks 8192
      "\<lparr>capacity = 16, size_b = 10, prev = 8192, next_b = 8192\<rparr>" example_config]
  by (auto simp: two_blocks_def example_config_def data_def)

section \<open>Detaching a block\<close>

lemma block_detach_self:
  assumes "mem h block = Some b" "prev b = block" "next_b b = block"
  shows "block_detach block h = Some (block, h)"
proof -
  have "b\<lparr>next_b := block\<rparr> = b" "b\<lparr>prev := block\<rparr> = b"
    using assms by simp_all
  then show ?thesis
    using assms by (simp add: block_detach_def store_next_def store_prev_def map_upd_triv)
qed

lemma block_detach_member:
  assumes b: "mem h block = Some b"
    and p: "mem h (prev b) = Some p" and n: "mem h (next_b b) = Some n"
    and ne: "prev b \<noteq> block" "next_b b \<noteq> block" "block \<noteq> NULL"
  shows "\<exists>h'. block_detach block h = Some (block, h') \<and>
            mem h' block = Some (b\<lparr>prev := block, next_b := block\<rparr>) \<and>
            (\<exists>p' n'. mem h' (prev b) = Some p' \<and> next_b p' = next_b b \<and>
                     capacity p' = capacity p \<and> size_b p' = size_b p \<and>
                     mem h' (next_b b) = Some n' \<and> prev n' = prev b \<and>
                     capacity n' = capacity n \<and> size_b n' = size_b n) \<and>
            (\<forall>a. a \<noteq> block \<and> a \<noteq> prev b \<and> a \<noteq> next_b b \<longrightarrow> mem h' a = mem h a) \<and>
            brk h' = brk h \<and> Counters h' = Counters h"
proof (cases "next_b b = prev b")
  case True
  with p n have "n = p" by simp
  then show ?thesis
    using b p n ne True
    by (simp add: block_detach_def store_next_def store_prev_def Let_def)
next
  case False
  then show ?thesis
    using b p n ne
    by (simp add: block_detach_def store_next_def store_prev_def Let_def)
qed

text \<open>
  Claim C8. For a block in a circular list (its predecessor's \<open>next\<close> and its successor's
  \<open>prev\<close> point to it), \<open>block_detach\<close> makes the predecessor and the successor point
  to each other and links the block to itself, touching nothing else. Detaching a block
  that is linked to itself changes nothing, so a second detach is a no-op; and the detach
  of \<open>NULL\<close> returns \<open>NULL\<close>.
\<close>

theorem block_detach_splice:
  assumes b: "mem h block = Some b"
    and p: "mem h (prev b) = Some p" "next_b p = block"
    and n: "mem h (next_b b) = Some n" "prev n = block"
    and nn: "block \<noteq> NULL"
  shows "block_detach NULL h = Some (NULL, h) \<and>
         (\<exists>h'. block_detach block h = Some (block, h') \<and>
            mem h' block = Some (b\<lparr>prev := block, next_b := block\<rparr>) \<and>
            (prev b \<noteq> block \<longrightarrow>
               (\<exists>p' n'. mem h' (prev b) = Some p' \<and> next_b p' = next_b b \<and>
                        capacity p' = capacity p \<and> size_b p' = size_b p \<and>
                        mem h' (next_b b) = Some n' \<and> prev n' = prev b \<and>
                        capacity n' = capacity n \<and> size_b n' = size_b n)) \<and>
            (\<forall>a. a \<noteq> block \<and> a \<noteq> prev b \<and> a \<noteq> next_b b \<longrightarrow> mem h' a = mem h a) \<and>
            brk h' = brk h \<and> Counters h' = Counters h \<and>
            (prev b = block \<and> next_b b = block \<longrightarrow> h' = h) \<and>
            block_detach block h' = Some (block, h'))"
proof -
  have null: "block_detach NULL h = Some (NULL, h)"
    by (simp add: block_detach_def)
  show ?thesis
  proof (cases "prev b = block")
    case True
    with b p have "p = b" by simp
    with p True have nb: "next_b b = block" by simp
    have "block_detach block h = Some (block, h)"
      using b True nb by (rule block_detach_self)
    then show ?thesis using null b True nb by simp
  next
    case False
    have nb: "next_b b \<noteq> block"
    proof
      assume e: "next_b b = block"
      with b n have "n = b" by simp
      with n False show False by simp
    qed
    from block_detach_member [OF b p(1) n(1) False nb nn]
    obtain h' where h': "block_detach block h = Some (block, h')"
      "mem h' block = Some (b\<lparr>prev := block, next_b := block\<rparr>)"
      "\<exists>p' n'. mem h' (prev b) = Some p' \<and> next_b p' = next_b b \<and>
                     capacity p' = capacity p \<and> size_b p' = size_b p \<and>
                     mem h' (next_b b) = Some n' \<and> prev n' = prev b \<and>
                     capacity n' = capacity n \<and> size_b n' = size_b n"
      "\<forall>a. a \<noteq> block \<and> a \<noteq> prev b \<and> a \<noteq> next_b b \<longrightarrow> mem h' a = mem h a"
      "brk h' = brk h" "Counters h' = Counters h"
      by blast
    have again: "block_detach block h' = Some (block, h')"
      by (rule block_detach_self [OF h'(2)]) simp_all
    show ?thesis
      using null h' again False by simp
  qed
qed

theorem block_detach_splice_witness:
  "block_detach NULL one_free_block = Some (NULL, one_free_block) \<and>
   (\<exists>h'. block_detach 8192 one_free_block = Some (8192, h') \<and>
      mem h' 8192 = Some \<lparr>capacity = 64, size_b = 64, prev = 8192, next_b = 8192\<rparr> \<and>
      mem h' 4096 = Some \<lparr>capacity = - 1, size_b = - 1, prev = 4096, next_b = 4096\<rparr> \<and>
      block_detach 8192 h' = Some (8192, h'))"
  using block_detach_splice [of one_free_block 8192
      "\<lparr>capacity = 64, size_b = 64, prev = 4096, next_b = 4096\<rparr>"
      "\<lparr>capacity = - 1, size_b = - 1, prev = 8192, next_b = 8192\<rparr>"
      "\<lparr>capacity = - 1, size_b = - 1, prev = 8192, next_b = 8192\<rparr>"]
  by (auto simp: one_free_block_def NULL_def)

section \<open>Splitting a block\<close>

lemma block_split_no_room:
  assumes "mem h block = Some b" "\<not> ALIGN cfg sz + sizeof_Block cfg < capacity b"
  shows "block_split cfg block sz h = Some (block, h)"
  using assms by (simp add: block_split_def)

lemma block_split_room:
  assumes b: "mem h block = Some b" and n: "mem h (next_b b) = Some n"
    and room: "ALIGN cfg sz + sizeof_Block cfg < capacity b"
    and fresh: "data cfg block + ALIGN cfg sz \<noteq> block" "data cfg block + ALIGN cfg sz \<noteq> next_b b"
    and sep: "separate cfg h (data cfg block + ALIGN cfg sz)"
  shows "\<exists>h'. block_split cfg block sz h = Some (block, h') \<and>
           (\<exists>b'. mem h' block = Some b' \<and> capacity b' = ALIGN cfg sz \<and> size_b b' = sz \<and>
                 next_b b' = data cfg block + ALIGN cfg sz) \<and>
           mem h' (data cfg block + ALIGN cfg sz) =
             Some \<lparr>capacity = capacity b - ALIGN cfg sz - sizeof_Block cfg,
                   size_b = capacity b - ALIGN cfg sz - sizeof_Block cfg,
                   prev = block, next_b = next_b b\<rparr> \<and>
           (\<exists>n'. mem h' (next_b b) = Some n' \<and> prev n' = data cfg block + ALIGN cfg sz) \<and>
           (\<forall>a. a \<noteq> block \<and> a \<noteq> data cfg block + ALIGN cfg sz \<and> a \<noteq> next_b b \<longrightarrow>
                mem h' a = mem h a)"
proof (cases "next_b b = block")
  case True
  then show ?thesis
    using b n room fresh sep
    by (simp add: block_split_def Let_def store_prev_def store_capacity_def store_size_def
        store_next_def)
next
  case False
  then show ?thesis
    using b n room fresh sep
    by (simp add: block_split_def Let_def store_prev_def store_capacity_def store_size_def
        store_next_def)
qed

lemma block_split_returns_block:
  "block_split cfg block sz h = Some (r, h') \<Longrightarrow> r = block"
  by (auto simp: block_split_def Let_def split: bind_splits if_splits)

lemma split_no_wrap:
  fixes A S :: size_t
  assumes b: "mem h block = Some b"
    and sep: "separate cfg h (block + S + A)" and ne: "block + S + A \<noteq> block"
    and S: "unat S \<le> header_bytes cfg"
  shows "unat (A + S) = unat A + unat S"
proof (rule ccontr)
  assume "unat (A + S) \<noteq> unat A + unat S"
  then have w: "2 ^ 64 \<le> unat A + unat S"
    using unat_add_lem [of A S] by auto
  define k where "k = unat A + unat S - 2 ^ 64"
  have kS: "k < unat S" using unat_bound [of A] w by (simp add: k_def)
  have "(of_nat (unat A + unat S) :: size_t) = of_nat (k + 2 ^ 64)"
    using w by (simp add: k_def)
  then have AS: "A + S = of_nat k" by simp
  then have p: "block + S + A = block + of_nat k" by (simp add: add.assoc add.commute)
  have "k \<noteq> 0"
  proof
    assume "k = 0"
    with p ne show False by simp
  qed
  with kS S have "k \<in> {1..<header_bytes cfg}" by simp
  with sep have "mem h (block + S + A - of_nat k) = None" by (simp add: separate_def)
  then show False using b by (simp add: p)
qed

lemma split_remainder_unat:
  fixes A S C :: size_t
  assumes ah: "unat (A + S) = unat A + unat S" and lt: "A + S < C"
  shows "unat A + unat S + unat (C - A - S) = unat C"
proof -
  from lt have l: "unat A + unat S < unat C" by (simp add: word_less_nat_alt ah)
  have "A \<le> C" using l by (simp add: word_le_nat_alt)
  then have 2: "unat (C - A) = unat C - unat A" by (rule unat_sub)
  have "S \<le> C - A" using l 2 by (simp add: word_le_nat_alt)
  then have "unat (C - A - S) = unat (C - A) - unat S" by (rule unat_sub)
  with 2 l show ?thesis by simp
qed

text \<open>
  Claim C2, amended. Let \<open>block\<close> have capacity \<open>C\<close>. Whenever \<open>block_split\<close> has a
  result, it is \<open>block\<close>. If \<open>ALIGN(s) + sizeof(Block) < C\<close> does not hold, it returns with
  the state unchanged. If it holds, then on these conditions: the headers of the state
  share no bytes; \<open>block\<close> has a list successor; the address \<open>block->data + ALIGN(s)\<close>
  of the remainder is neither the address of \<open>block\<close> nor that of its successor; and a
  header at that address shares no byte with a header at another address;
  \<open>block_split\<close> leaves \<open>block\<close> with capacity \<open>ALIGN(s)\<close> and size \<open>s\<close>, writes at
  \<open>block->data + ALIGN(s)\<close> a remainder whose capacity and size are
  \<open>C - ALIGN(s) - sizeof(Block)\<close>, so that \<open>ALIGN(s)\<close>, the header size and the
  remainder's capacity add up to \<open>C\<close> without wrapping around, and links the remainder
  between \<open>block\<close> and its former successor, touching no other header; the headers of
  the resulting state share no bytes.
\<close>

theorem block_split_conservation:
  assumes b: "mem h block = Some b"
  shows "(\<forall>r h'. block_split cfg block sz h = Some (r, h') \<longrightarrow> r = block) \<and>
         (if ALIGN cfg sz + sizeof_Block cfg < capacity b
          then separated cfg h \<and> mem h (next_b b) \<noteq> None \<and>
               data cfg block + ALIGN cfg sz \<noteq> block \<and>
               data cfg block + ALIGN cfg sz \<noteq> next_b b \<and>
               separate cfg h (data cfg block + ALIGN cfg sz) \<longrightarrow>
               (\<exists>h'. block_split cfg block sz h = Some (block, h') \<and> separated cfg h' \<and>
                  (\<exists>b'. mem h' block = Some b' \<and> capacity b' = ALIGN cfg sz \<and> size_b b' = sz \<and>
                        next_b b' = data cfg block + ALIGN cfg sz) \<and>
                  (\<exists>r. mem h' (data cfg block + ALIGN cfg sz) = Some r \<and>
                        capacity r = capacity b - ALIGN cfg sz - sizeof_Block cfg \<and>
                        size_b r = capacity b - ALIGN cfg sz - sizeof_Block cfg \<and>
                        ALIGN cfg sz + sizeof_Block cfg + capacity r = capacity b \<and>
                        unat (ALIGN cfg sz) + unat (sizeof_Block cfg) + unat (capacity r) =
                          unat (capacity b) \<and>
                        prev r = block \<and> next_b r = next_b b) \<and>
                  (\<exists>n'. mem h' (next_b b) = Some n' \<and> prev n' = data cfg block + ALIGN cfg sz) \<and>
                  (\<forall>a. a \<noteq> block \<and> a \<noteq> data cfg block + ALIGN cfg sz \<and> a \<noteq> next_b b \<longrightarrow>
                       mem h' a = mem h a))
          else block_split cfg block sz h = Some (block, h))"
proof (intro conjI allI impI)
  fix r h' assume "block_split cfg block sz h = Some (r, h')"
  then show "r = block" by (rule block_split_returns_block)
next
  show "if ALIGN cfg sz + sizeof_Block cfg < capacity b
          then separated cfg h \<and> mem h (next_b b) \<noteq> None \<and>
               data cfg block + ALIGN cfg sz \<noteq> block \<and>
               data cfg block + ALIGN cfg sz \<noteq> next_b b \<and>
               separate cfg h (data cfg block + ALIGN cfg sz) \<longrightarrow>
               (\<exists>h'. block_split cfg block sz h = Some (block, h') \<and> separated cfg h' \<and>
                  (\<exists>b'. mem h' block = Some b' \<and> capacity b' = ALIGN cfg sz \<and> size_b b' = sz \<and>
                        next_b b' = data cfg block + ALIGN cfg sz) \<and>
                  (\<exists>r. mem h' (data cfg block + ALIGN cfg sz) = Some r \<and>
                        capacity r = capacity b - ALIGN cfg sz - sizeof_Block cfg \<and>
                        size_b r = capacity b - ALIGN cfg sz - sizeof_Block cfg \<and>
                        ALIGN cfg sz + sizeof_Block cfg + capacity r = capacity b \<and>
                        unat (ALIGN cfg sz) + unat (sizeof_Block cfg) + unat (capacity r) =
                          unat (capacity b) \<and>
                        prev r = block \<and> next_b r = next_b b) \<and>
                  (\<exists>n'. mem h' (next_b b) = Some n' \<and> prev n' = data cfg block + ALIGN cfg sz) \<and>
                  (\<forall>a. a \<noteq> block \<and> a \<noteq> data cfg block + ALIGN cfg sz \<and> a \<noteq> next_b b \<longrightarrow>
                       mem h' a = mem h a))
          else block_split cfg block sz h = Some (block, h)"
  proof (cases "ALIGN cfg sz + sizeof_Block cfg < capacity b")
    case False
    then show ?thesis using block_split_no_room [OF b False] by simp
  next
    case True
    show ?thesis
    proof (simp only: True if_True, intro impI, elim conjE)
      assume sd: "separated cfg h" and "mem h (next_b b) \<noteq> None"
        and fresh: "data cfg block + ALIGN cfg sz \<noteq> block" "data cfg block + ALIGN cfg sz \<noteq> next_b b"
        and sep: "separate cfg h (data cfg block + ALIGN cfg sz)"
      then obtain n where n: "mem h (next_b b) = Some n" by auto
      have "unat (sizeof_Block cfg) \<le> header_bytes cfg" by (simp add: header_bytes_def)
      from split_no_wrap [OF b sep [unfolded data_def] fresh(1) [unfolded data_def] this]
      have "unat (ALIGN cfg sz) + unat (sizeof_Block cfg) +
              unat (capacity b - ALIGN cfg sz - sizeof_Block cfg) = unat (capacity b)"
        by (rule split_remainder_unat [OF _ True])
      with block_split_room [OF b n True fresh sep] block_split_separated [OF _ sd]
      show "\<exists>h'. block_split cfg block sz h = Some (block, h') \<and> separated cfg h' \<and>
                  (\<exists>b'. mem h' block = Some b' \<and> capacity b' = ALIGN cfg sz \<and> size_b b' = sz \<and>
                        next_b b' = data cfg block + ALIGN cfg sz) \<and>
                  (\<exists>r. mem h' (data cfg block + ALIGN cfg sz) = Some r \<and>
                        capacity r = capacity b - ALIGN cfg sz - sizeof_Block cfg \<and>
                        size_b r = capacity b - ALIGN cfg sz - sizeof_Block cfg \<and>
                        ALIGN cfg sz + sizeof_Block cfg + capacity r = capacity b \<and>
                        unat (ALIGN cfg sz) + unat (sizeof_Block cfg) + unat (capacity r) =
                          unat (capacity b) \<and>
                        prev r = block \<and> next_b r = next_b b) \<and>
                  (\<exists>n'. mem h' (next_b b) = Some n' \<and> prev n' = data cfg block + ALIGN cfg sz) \<and>
                  (\<forall>a. a \<noteq> block \<and> a \<noteq> data cfg block + ALIGN cfg sz \<and> a \<noteq> next_b b \<longrightarrow>
                       mem h' a = mem h a)"
        by auto
    qed
  qed
qed

theorem block_split_conservation_witness:
  "separated example_config one_free_block \<and>
   separate example_config one_free_block 8240 \<and>
   ALIGN example_config 10 + sizeof_Block example_config < 64 \<and>
   (\<exists>h'. block_split example_config 8192 10 one_free_block = Some (8192, h') \<and>
      (\<exists>b'. mem h' 8192 = Some b' \<and> capacity b' = 16 \<and> size_b b' = 10 \<and> next_b b' = 8240) \<and>
      (\<exists>r. mem h' 8240 = Some r \<and> capacity r = 16 \<and> size_b r = 16 \<and>
            prev r = 8192 \<and> next_b r = 4096) \<and>
      (\<exists>n'. mem h' 4096 = Some n' \<and> prev n' = 8240)) \<and>
   \<not> ALIGN example_config 40 + sizeof_Block example_config < 64 \<and>
   block_split example_config 8192 40 one_free_block = Some (8192, one_free_block)"
proof -
  have a: "ALIGN example_config 10 = 16" "ALIGN example_config 40 = 40"
    "sizeof_Block example_config = 32"
    by (simp_all add: ALIGN_def example_config_def)
  have m: "mem one_free_block 8192 = Some \<lparr>capacity = 64, size_b = 64, prev = 4096, next_b = 4096\<rparr>"
    "mem one_free_block 4096 \<noteq> None"
    by (simp_all add: one_free_block_def)
  from block_split_conservation [OF m(1), of example_config 10]
    block_split_conservation [OF m(1), of example_config 40]
  show ?thesis
    using m(2) separated_one_free_block separate_one_free_block(3)
    by (simp add: a data_def) blast
qed

text \<open>
  Claim C2 as stated fails where \<open>ALIGN(s) + sizeof(Block)\<close> wraps around to 0. For a free
  block of capacity 64 at address 8192 and \<open>s = 2^64 - 32\<close> the test
  \<open>ALIGN(s) + sizeof(Block) < 64\<close> holds and the remainder's address is 8192 again, the
  block itself. The claim asks for a remainder of capacity \<open>64 - ALIGN(s) - 32 = 64\<close>
  there, linked between the block and the sentinel; the header at 8192 ends up with
  capacity and size \<open>2^64 - 32\<close> and linked to itself.
\<close>

theorem block_split_wrap_counterexample:
  "ALIGN example_config (- 32) + sizeof_Block example_config < 64 \<and>
   data example_config 8192 + ALIGN example_config (- 32) = 8192 \<and>
   64 - ALIGN example_config (- 32) - sizeof_Block example_config = 64 \<and>
   map_option (\<lambda>(r, h'). (r, mem h' 8192)) (block_split example_config 8192 (- 32) one_free_block) =
     Some (8192, Some \<lparr>capacity = - 32, size_b = - 32, prev = 8192, next_b = 8192\<rparr>)"
proof -
  have a: "ALIGN example_config (- 32) = - 32" "sizeof_Block example_config = 32"
    "data example_config 8192 = 8224"
    by (simp_all add: ALIGN_def example_config_def data_def)
  have m: "mem one_free_block 8192 = Some \<lparr>capacity = 64, size_b = 64, prev = 4096, next_b = 4096\<rparr>"
    "mem one_free_block 4096 = Some \<lparr>capacity = - 1, size_b = - 1, prev = 8192, next_b = 8192\<rparr>"
    by (simp_all add: one_free_block_def)
  show ?thesis
    by (simp add: block_split_def a m separate_one_free_block(2) store_prev_def
        store_capacity_def store_size_def store_next_def)
qed

section \<open>Searching the free list\<close>

lemma search_ff_loop_path:
  "path h cur xs (FreeList cfg) \<Longrightarrow>
   search_ff_loop cfg sz h cur =
     (case find (\<lambda>x. sz \<le> cap h x) xs of
        None \<Rightarrow> Some (NULL, h)
      | Some x \<Rightarrow> map_option (Pair x) (store_size x sz h))"
proof (induction xs arbitrary: cur)
  case Nil
  then show ?case by (subst search_ff_loop.simps) simp
next
  case (Cons x xs)
  then show ?case
    by (subst search_ff_loop.simps)
       (auto simp: cap_def store_size_def split: option.splits)
qed

lemma search_bf_loop_path:
  "path h cur xs (FreeList cfg) \<Longrightarrow> s = NULL \<or> mem h s \<noteq> None \<Longrightarrow>
   search_bf_loop cfg sz h s cur = Some (smallest_of h sz s xs)"
proof (induction xs arbitrary: cur s)
  case Nil
  then show ?case by (subst search_bf_loop.simps) simp
next
  case (Cons x xs)
  from Cons.prems obtain b where b: "cur = x" "x \<noteq> FreeList cfg" "mem h x = Some b"
    "path h (next_b b) xs (FreeList cfg)"
    by (auto split: option.splits)
  let ?s = "if sz \<le> cap h x \<and> (s = NULL \<or> cap h x < cap h s) then x else s"
  have ok: "?s = NULL \<or> mem h ?s \<noteq> None"
    using Cons.prems(2) b by auto
  have step: "search_bf_loop cfg sz h s cur = search_bf_loop cfg sz h ?s (next_b b)"
    using b Cons.prems(2)
    by (subst search_bf_loop.simps) (auto simp: cap_def split: option.splits)
  show ?case
    using Cons.IH [OF b(4) ok] step by simp
qed

lemma search_wf_loop_path:
  "path h cur xs (FreeList cfg) \<Longrightarrow> l = NULL \<or> mem h l \<noteq> None \<Longrightarrow>
   search_wf_loop cfg sz h l cur = Some (largest_of h sz l xs)"
proof (induction xs arbitrary: cur l)
  case Nil
  then show ?case by (subst search_wf_loop.simps) simp
next
  case (Cons x xs)
  from Cons.prems obtain b where b: "cur = x" "x \<noteq> FreeList cfg" "mem h x = Some b"
    "path h (next_b b) xs (FreeList cfg)"
    by (auto split: option.splits)
  let ?l = "if sz \<le> cap h x \<and> (l = NULL \<or> cap h l < cap h x) then x else l"
  have ok: "?l = NULL \<or> mem h ?l \<noteq> None"
    using Cons.prems(2) b by auto
  have step: "search_wf_loop cfg sz h l cur = search_wf_loop cfg sz h ?l (next_b b)"
    using b Cons.prems(2)
    by (subst search_wf_loop.simps) (auto simp: cap_def split: option.splits)
  show ?case
    using Cons.IH [OF b(4) ok] step by simp
qed

lemma path_mem: "path h a xs z \<Longrightarrow> x \<in> set xs \<Longrightarrow> mem h x \<noteq> None"
  by (induction xs arbitrary: a) (auto split: option.splits)

lemma smallest_of_spec:
  assumes "NULL \<notin> set xs" "s = NULL \<or> sz \<le> cap h s"
  shows "(smallest_of h sz s xs = s \<and> (\<forall>x\<in>set xs. sz \<le> cap h x \<longrightarrow> s \<noteq> NULL \<and> cap h s \<le> cap h x)) \<or>
         (\<exists>pre post. xs = pre @ smallest_of h sz s xs # post \<and> sz \<le> cap h (smallest_of h sz s xs) \<and>
            (s \<noteq> NULL \<longrightarrow> cap h (smallest_of h sz s xs) < cap h s) \<and>
            (\<forall>x\<in>set pre. sz \<le> cap h x \<longrightarrow> cap h (smallest_of h sz s xs) < cap h x) \<and>
            (\<forall>x\<in>set post. sz \<le> cap h x \<longrightarrow> cap h (smallest_of h sz s xs) \<le> cap h x))"
  using assms
proof (induction xs arbitrary: s)
  case Nil
  then show ?case by simp
next
  case (Cons x xs)
  let ?s = "if sz \<le> cap h x \<and> (s = NULL \<or> cap h x < cap h s) then x else s"
  let ?r = "smallest_of h sz ?s xs"
  have r: "smallest_of h sz s (x # xs) = ?r" by simp
  have pre: "NULL \<notin> set xs" "?s = NULL \<or> sz \<le> cap h ?s" "x \<noteq> NULL"
    using Cons.prems by auto
  from Cons.IH [OF pre(1,2)]
  consider (keep) "?r = ?s" "\<forall>y\<in>set xs. sz \<le> cap h y \<longrightarrow> ?s \<noteq> NULL \<and> cap h ?s \<le> cap h y"
    | (later) pre post where "xs = pre @ ?r # post" "sz \<le> cap h ?r"
        "?s \<noteq> NULL \<longrightarrow> cap h ?r < cap h ?s"
        "\<forall>y\<in>set pre. sz \<le> cap h y \<longrightarrow> cap h ?r < cap h y"
        "\<forall>y\<in>set post. sz \<le> cap h y \<longrightarrow> cap h ?r \<le> cap h y"
    by blast
  then show ?case
  proof cases
    case keep
    show ?thesis
    proof (cases "sz \<le> cap h x \<and> (s = NULL \<or> cap h x < cap h s)")
      case True
      then have "x # xs = [] @ ?r # xs" using keep by simp
      moreover have "sz \<le> cap h ?r" "s \<noteq> NULL \<longrightarrow> cap h ?r < cap h s"
        "\<forall>y\<in>set xs. sz \<le> cap h y \<longrightarrow> cap h ?r \<le> cap h y"
        using True keep pre(3) by auto
      ultimately show ?thesis unfolding r by (intro disjI2 exI [of _ "[]"] exI [of _ xs]) simp
    next
      case False
      then show ?thesis unfolding r using keep by (intro disjI1) auto
    qed
  next
    case later
    have "x # xs = (x # pre) @ ?r # post" using later(1) by simp
    moreover have "s \<noteq> NULL \<longrightarrow> cap h ?r < cap h s"
      using later(3) pre(3) by (auto split: if_splits)
    moreover have "\<forall>y\<in>set (x # pre). sz \<le> cap h y \<longrightarrow> cap h ?r < cap h y"
      using later(3,4) pre(3) Cons.prems(2) by (auto split: if_splits)
    ultimately show ?thesis
      unfolding r using later(2,5)
      by (intro disjI2 exI [of _ "x # pre"] exI [of _ post]) simp
  qed
qed

lemma largest_of_spec:
  assumes "NULL \<notin> set xs" "l = NULL \<or> sz \<le> cap h l"
  shows "(largest_of h sz l xs = l \<and> (\<forall>x\<in>set xs. sz \<le> cap h x \<longrightarrow> l \<noteq> NULL \<and> cap h x \<le> cap h l)) \<or>
         (\<exists>pre post. xs = pre @ largest_of h sz l xs # post \<and> sz \<le> cap h (largest_of h sz l xs) \<and>
            (l \<noteq> NULL \<longrightarrow> cap h l < cap h (largest_of h sz l xs)) \<and>
            (\<forall>x\<in>set pre. sz \<le> cap h x \<longrightarrow> cap h x < cap h (largest_of h sz l xs)) \<and>
            (\<forall>x\<in>set post. sz \<le> cap h x \<longrightarrow> cap h x \<le> cap h (largest_of h sz l xs)))"
  using assms
proof (induction xs arbitrary: l)
  case Nil
  then show ?case by simp
next
  case (Cons x xs)
  let ?l = "if sz \<le> cap h x \<and> (l = NULL \<or> cap h l < cap h x) then x else l"
  let ?r = "largest_of h sz ?l xs"
  have r: "largest_of h sz l (x # xs) = ?r" by simp
  have pre: "NULL \<notin> set xs" "?l = NULL \<or> sz \<le> cap h ?l" "x \<noteq> NULL"
    using Cons.prems by auto
  from Cons.IH [OF pre(1,2)]
  consider (keep) "?r = ?l" "\<forall>y\<in>set xs. sz \<le> cap h y \<longrightarrow> ?l \<noteq> NULL \<and> cap h y \<le> cap h ?l"
    | (later) pre post where "xs = pre @ ?r # post" "sz \<le> cap h ?r"
        "?l \<noteq> NULL \<longrightarrow> cap h ?l < cap h ?r"
        "\<forall>y\<in>set pre. sz \<le> cap h y \<longrightarrow> cap h y < cap h ?r"
        "\<forall>y\<in>set post. sz \<le> cap h y \<longrightarrow> cap h y \<le> cap h ?r"
    by blast
  then show ?case
  proof cases
    case keep
    show ?thesis
    proof (cases "sz \<le> cap h x \<and> (l = NULL \<or> cap h l < cap h x)")
      case True
      then have "x # xs = [] @ ?r # xs" using keep by simp
      moreover have "sz \<le> cap h ?r" "l \<noteq> NULL \<longrightarrow> cap h l < cap h ?r"
        "\<forall>y\<in>set xs. sz \<le> cap h y \<longrightarrow> cap h y \<le> cap h ?r"
        using True keep pre(3) by auto
      ultimately show ?thesis unfolding r by (intro disjI2 exI [of _ "[]"] exI [of _ xs]) simp
    next
      case False
      then show ?thesis unfolding r using keep by (intro disjI1) auto
    qed
  next
    case later
    have "x # xs = (x # pre) @ ?r # post" using later(1) by simp
    moreover have "l \<noteq> NULL \<longrightarrow> cap h l < cap h ?r"
      using later(3) pre(3) by (auto split: if_splits)
    moreover have "\<forall>y\<in>set (x # pre). sz \<le> cap h y \<longrightarrow> cap h y < cap h ?r"
      using later(3,4) pre(3) Cons.prems(2) by (auto split: if_splits)
    ultimately show ?thesis
      unfolding r using later(2,5)
      by (intro disjI2 exI [of _ "x # pre"] exI [of _ post]) simp
  qed
qed

lemma find_split:
  "find P xs = Some x \<Longrightarrow> \<exists>pre post. xs = pre @ x # post \<and> P x \<and> (\<forall>y\<in>set pre. \<not> P y)"
proof (induction xs)
  case Nil
  then show ?case by simp
next
  case (Cons y ys)
  show ?case
  proof (cases "P y")
    case True
    with Cons.prems have "y # ys = [] @ x # ys \<and> P x \<and> (\<forall>y\<in>set []. \<not> P y)" by simp
    then show ?thesis by blast
  next
    case False
    with Cons obtain pre post where "ys = pre @ x # post" "P x" "\<forall>y\<in>set pre. \<not> P y"
      by auto
    with False have "y # ys = (y # pre) @ x # post \<and> P x \<and> (\<forall>z\<in>set (y # pre). \<not> P z)"
      by simp
    then show ?thesis by blast
  qed
qed

lemma bind_Some_Pair: "m \<bind> (\<lambda>y. Some (x, y)) = map_option (Pair x) m"
  by (cases m) simp_all

lemma free_list_search_ff_result:
  "free_list cfg h bs \<Longrightarrow>
   free_list_search_ff cfg sz h =
     (case find (\<lambda>x. sz \<le> cap h x) bs of
        None \<Rightarrow> Some (NULL, h)
      | Some x \<Rightarrow> map_option (Pair x) (store_size x sz h))"
  by (auto simp: free_list_def free_list_search_ff_def search_ff_loop_path split: option.splits)

lemma free_list_search_bf_result:
  "free_list cfg h bs \<Longrightarrow>
   free_list_search_bf cfg sz h =
     (if smallest_of h sz NULL bs \<noteq> NULL
      then map_option (Pair (smallest_of h sz NULL bs)) (store_size (smallest_of h sz NULL bs) sz h)
      else Some (NULL, h))"
  by (auto simp: free_list_def free_list_search_bf_def search_bf_loop_path bind_Some_Pair split: option.splits)

lemma free_list_search_wf_result:
  "free_list cfg h bs \<Longrightarrow>
   free_list_search_wf cfg sz h =
     (if largest_of h sz NULL bs \<noteq> NULL
      then map_option (Pair (largest_of h sz NULL bs)) (store_size (largest_of h sz NULL bs) sz h)
      else Some (NULL, h))"
  by (auto simp: free_list_def free_list_search_wf_def search_wf_loop_path bind_Some_Pair split: option.splits)

lemma path_not_NULL: "path h a xs z \<Longrightarrow> mem h NULL = None \<Longrightarrow> NULL \<notin> set xs"
  using path_mem [of h a xs z NULL] by auto

lemma free_list_not_NULL: "free_list cfg h bs \<Longrightarrow> mem h NULL = None \<Longrightarrow> NULL \<notin> set bs"
  by (auto simp: free_list_def path_not_NULL split: option.splits)

lemma free_list_mem: "free_list cfg h bs \<Longrightarrow> x \<in> set bs \<Longrightarrow> \<exists>b. mem h x = Some b"
  using path_mem by (fastforce simp: free_list_def split: option.splits)

lemma store_size_free_list:
  "free_list cfg h bs \<Longrightarrow> x \<in> set bs \<Longrightarrow>
   \<exists>b. mem h x = Some b \<and> store_size x sz h = Some (h\<lparr>mem := (mem h)(x \<mapsto> b\<lparr>size_b := sz\<rparr>)\<rparr>)"
  using free_list_mem [of cfg h bs x] by (auto simp: store_size_def)

lemma search_ff_spec:
  assumes fl: "free_list cfg h bs"
  shows "\<exists>r h'. free_list_search_ff cfg sz h = Some (r, h') \<and>
      (if \<forall>x\<in>set bs. \<not> sz \<le> cap h x then r = NULL \<and> h' = h
       else store_size r sz h = Some h' \<and>
            (\<exists>pre post. bs = pre @ r # post \<and> sz \<le> cap h r \<and> (\<forall>x\<in>set pre. \<not> sz \<le> cap h x)))"
proof (cases "find (\<lambda>x. sz \<le> cap h x) bs")
  case None
  have "free_list_search_ff cfg sz h = Some (NULL, h)"
    using fl None by (simp add: free_list_search_ff_result)
  moreover have "\<forall>x\<in>set bs. \<not> sz \<le> cap h x"
    using None by (simp add: find_None_iff)
  ultimately show ?thesis by simp
next
  case (Some x)
  from find_split [OF Some] obtain pre post where
    sp: "bs = pre @ x # post" "sz \<le> cap h x" "\<forall>y\<in>set pre. \<not> sz \<le> cap h y"
    by blast
  then have "x \<in> set bs" by simp
  from store_size_free_list [OF fl this] obtain h' where "store_size x sz h = Some h'"
    by blast
  moreover have "\<not> (\<forall>x\<in>set bs. \<not> sz \<le> cap h x)" using sp by auto
  ultimately show ?thesis
    using fl Some sp by (auto simp: free_list_search_ff_result)
qed

lemma search_bf_spec:
  assumes fl: "free_list cfg h bs" and nn: "mem h NULL = None"
  shows "\<exists>r h'. free_list_search_bf cfg sz h = Some (r, h') \<and>
      (if \<forall>x\<in>set bs. \<not> sz \<le> cap h x then r = NULL \<and> h' = h
       else store_size r sz h = Some h' \<and>
            (\<exists>pre post. bs = pre @ r # post \<and> sz \<le> cap h r \<and>
              (\<forall>x\<in>set pre. sz \<le> cap h x \<longrightarrow> cap h r < cap h x) \<and>
              (\<forall>x\<in>set post. sz \<le> cap h x \<longrightarrow> cap h r \<le> cap h x)))"
proof -
  let ?r = "smallest_of h sz NULL bs"
  have n: "NULL \<notin> set bs" by (rule free_list_not_NULL [OF fl nn])
  from smallest_of_spec [OF n, of NULL sz h]
  consider (none) "?r = NULL" "\<forall>x\<in>set bs. \<not> sz \<le> cap h x"
    | (some) pre post where "bs = pre @ ?r # post" "sz \<le> cap h ?r"
        "\<forall>x\<in>set pre. sz \<le> cap h x \<longrightarrow> cap h ?r < cap h x"
        "\<forall>x\<in>set post. sz \<le> cap h x \<longrightarrow> cap h ?r \<le> cap h x"
    by auto
  then show ?thesis
  proof cases
    case none
    then show ?thesis using fl by (simp add: free_list_search_bf_result)
  next
    case some
    then have m: "?r \<in> set bs" by (metis in_set_conv_decomp)
    with n have r: "?r \<noteq> NULL" by auto
    from store_size_free_list [OF fl m] obtain h' where h': "store_size ?r sz h = Some h'"
      by blast
    have q: "\<not> (\<forall>x\<in>set bs. \<not> sz \<le> cap h x)" using m some(2) by blast
    have res: "free_list_search_bf cfg sz h = Some (?r, h')"
      using fl r h' by (simp add: free_list_search_bf_result)
    show ?thesis
      unfolding res using q h' some by (simp only: if_False) blast
  qed
qed

lemma search_wf_spec:
  assumes fl: "free_list cfg h bs" and nn: "mem h NULL = None"
  shows "\<exists>r h'. free_list_search_wf cfg sz h = Some (r, h') \<and>
      (if \<forall>x\<in>set bs. \<not> sz \<le> cap h x then r = NULL \<and> h' = h
       else store_size r sz h = Some h' \<and>
            (\<exists>pre post. bs = pre @ r # post \<and> sz \<le> cap h r \<and>
              (\<forall>x\<in>set pre. sz \<le> cap h x \<longrightarrow> cap h x < cap h r) \<and>
              (\<forall>x\<in>set post. sz \<le> cap h x \<longrightarrow> cap h x \<le> cap h r)))"
proof -
  let ?r = "largest_of h sz NULL bs"
  have n: "NULL \<notin> set bs" by (rule free_list_not_NULL [OF fl nn])
  from largest_of_spec [OF n, of NULL sz h]
  consider (none) "?r = NULL" "\<forall>x\<in>set bs. \<not> sz \<le> cap h x"
    | (some) pre post where "bs = pre @ ?r # post" "sz \<le> cap h ?r"
        "\<forall>x\<in>set pre. sz \<le> cap h x \<longrightarrow> cap h x < cap h ?r"
        "\<forall>x\<in>set post. sz \<le> cap h x \<longrightarrow> cap h x \<le> cap h ?r"
    by auto
  then show ?thesis
  proof cases
    case none
    then show ?thesis using fl by (simp add: free_list_search_wf_result)
  next
    case some
    then have m: "?r \<in> set bs" by (metis in_set_conv_decomp)
    with n have r: "?r \<noteq> NULL" by auto
    from store_size_free_list [OF fl m] obtain h' where h': "store_size ?r sz h = Some h'"
      by blast
    have q: "\<not> (\<forall>x\<in>set bs. \<not> sz \<le> cap h x)" using m some(2) by blast
    have res: "free_list_search_wf cfg sz h = Some (?r, h')"
      using fl r h' by (simp add: free_list_search_wf_result)
    show ?thesis
      unfolding res using q h' some by (simp only: if_False) blast
  qed
qed

lemma fit_scenario:
  assumes fl: "free_list cfg h bs" and nn: "mem h NULL = None"
    and caps: "map (cap h) bs = [10, 30, 20]"
  shows "map_option fst (free_list_search_ff cfg 15 h) = Some (bs ! 1) \<and>
         map_option fst (free_list_search_bf cfg 15 h) = Some (bs ! 2) \<and>
         map_option fst (free_list_search_wf cfg 15 h) = Some (bs ! 1)"
proof -
  from caps obtain a b c where bs: "bs = [a, b, c]" "cap h a = 10" "cap h b = 30" "cap h c = 20"
    by (auto simp: map_eq_Cons_conv)
  have n: "NULL \<notin> set bs" by (rule free_list_not_NULL [OF fl nn])
  then have ne: "a \<noteq> NULL" "b \<noteq> NULL" "c \<noteq> NULL" using bs by auto
  from store_size_free_list [OF fl, of b 15] obtain hb where hb: "store_size b 15 h = Some hb"
    using bs by auto
  from store_size_free_list [OF fl, of c 15] obtain hc where hc: "store_size c 15 h = Some hc"
    using bs by auto
  have "free_list_search_ff cfg 15 h = Some (b, hb)"
    using bs hb by (simp add: free_list_search_ff_result [OF fl])
  moreover have "free_list_search_bf cfg 15 h = Some (c, hc)"
    using bs hc ne by (simp add: free_list_search_bf_result [OF fl])
  moreover have "free_list_search_wf cfg 15 h = Some (b, hb)"
    using bs hb ne by (simp add: free_list_search_wf_result [OF fl])
  ultimately show ?thesis using bs by simp
qed

lemma free_list_three_free_blocks:
  "free_list example_config three_free_blocks [8192, 8296, 8400]"
  by (simp add: free_list_def three_free_blocks_def example_config_def)

lemma three_free_blocks_NULL: "mem three_free_blocks NULL = None"
  by (simp add: three_free_blocks_def NULL_def)

text \<open>
  Claim C4. Let the free list hold the blocks \<open>bs\<close> in list order. First fit returns the
  first block whose capacity is at least the request. Best fit returns a block of the
  smallest capacity that is at least the request, worst fit one of the largest, and among
  blocks of equal capacity both return the one met first: every qualifying block before
  the result is strictly worse, every one after it is no better. With no qualifying block
  the result is \<open>NULL\<close>. In particular, with capacities 10, 30, 20 in list order and a
  request of 15, first fit returns the block of capacity 30, best fit the one of capacity
  20 and worst fit the one of capacity 30.
\<close>

theorem fit_strategies:
  assumes fl: "free_list cfg h bs" and nn: "mem h NULL = None"
  shows
    "(\<exists>r h'. free_list_search_ff cfg sz h = Some (r, h') \<and>
        (if \<forall>x\<in>set bs. \<not> sz \<le> cap h x then r = NULL
         else \<exists>pre post. bs = pre @ r # post \<and> sz \<le> cap h r \<and>
                (\<forall>x\<in>set pre. \<not> sz \<le> cap h x))) \<and>
     (\<exists>r h'. free_list_search_bf cfg sz h = Some (r, h') \<and>
        (if \<forall>x\<in>set bs. \<not> sz \<le> cap h x then r = NULL
         else \<exists>pre post. bs = pre @ r # post \<and> sz \<le> cap h r \<and>
                (\<forall>x\<in>set pre. sz \<le> cap h x \<longrightarrow> cap h r < cap h x) \<and>
                (\<forall>x\<in>set post. sz \<le> cap h x \<longrightarrow> cap h r \<le> cap h x))) \<and>
     (\<exists>r h'. free_list_search_wf cfg sz h = Some (r, h') \<and>
        (if \<forall>x\<in>set bs. \<not> sz \<le> cap h x then r = NULL
         else \<exists>pre post. bs = pre @ r # post \<and> sz \<le> cap h r \<and>
                (\<forall>x\<in>set pre. sz \<le> cap h x \<longrightarrow> cap h x < cap h r) \<and>
                (\<forall>x\<in>set post. sz \<le> cap h x \<longrightarrow> cap h x \<le> cap h r))) \<and>
     (map (cap h) bs = [10, 30, 20] \<longrightarrow>
        map_option fst (free_list_search_ff cfg 15 h) = Some (bs ! 1) \<and>
        map_option fst (free_list_search_bf cfg 15 h) = Some (bs ! 2) \<and>
        map_option fst (free_list_search_wf cfg 15 h) = Some (bs ! 1))"
proof (intro conjI impI)
  from search_ff_spec [OF fl, of sz]
  show "\<exists>r h'. free_list_search_ff cfg sz h = Some (r, h') \<and>
        (if \<forall>x\<in>set bs. \<not> sz \<le> cap h x then r = NULL
         else \<exists>pre post. bs = pre @ r # post \<and> sz \<le> cap h r \<and>
                (\<forall>x\<in>set pre. \<not> sz \<le> cap h x))"
    by (cases "\<forall>x\<in>set bs. \<not> sz \<le> cap h x") auto
  from search_bf_spec [OF fl nn, of sz]
  show "\<exists>r h'. free_list_search_bf cfg sz h = Some (r, h') \<and>
        (if \<forall>x\<in>set bs. \<not> sz \<le> cap h x then r = NULL
         else \<exists>pre post. bs = pre @ r # post \<and> sz \<le> cap h r \<and>
                (\<forall>x\<in>set pre. sz \<le> cap h x \<longrightarrow> cap h r < cap h x) \<and>
                (\<forall>x\<in>set post. sz \<le> cap h x \<longrightarrow> cap h r \<le> cap h x))"
    by (cases "\<forall>x\<in>set bs. \<not> sz \<le> cap h x") auto
  from search_wf_spec [OF fl nn, of sz]
  show "\<exists>r h'. free_list_search_wf cfg sz h = Some (r, h') \<and>
        (if \<forall>x\<in>set bs. \<not> sz \<le> cap h x then r = NULL
         else \<exists>pre post. bs = pre @ r # post \<and> sz \<le> cap h r \<and>
                (\<forall>x\<in>set pre. sz \<le> cap h x \<longrightarrow> cap h x < cap h r) \<and>
                (\<forall>x\<in>set post. sz \<le> cap h x \<longrightarrow> cap h x \<le> cap h r))"
    by (cases "\<forall>x\<in>set bs. \<not> sz \<le> cap h x") auto
next
  assume caps: "map (cap h) bs = [10, 30, 20]"
  from fit_scenario [OF fl nn caps]
  show "map_option fst (free_list_search_ff cfg 15 h) = Some (bs ! 1)"
    "map_option fst (free_list_search_bf cfg 15 h) = Some (bs ! 2)"
    "map_option fst (free_list_search_wf cfg 15 h) = Some (bs ! 1)"
    by simp_all
qed

theorem fit_strategies_witness:
  "free_list example_config three_free_blocks [8192, 8296, 8400] \<and>
   map (cap three_free_blocks) [8192, 8296, 8400] = [10, 30, 20] \<and>
   map_option fst (free_list_search_ff example_config 15 three_free_blocks) = Some 8296 \<and>
   map_option fst (free_list_search_bf example_config 15 three_free_blocks) = Some 8400 \<and>
   map_option fst (free_list_search_wf example_config 15 three_free_blocks) = Some 8296"
proof -
  have caps: "map (cap three_free_blocks) [8192, 8296, 8400] = [10, 30, 20]"
    by (simp add: cap_def three_free_blocks_def)
  from fit_strategies [OF free_list_three_free_blocks three_free_blocks_NULL, of 15] caps
  show ?thesis
    using free_list_three_free_blocks by simp
qed

lemma search_ff_loop_frame:
  assumes res: "search_ff_loop cfg sz h cur = Some y" and nn: "mem h NULL = None"
  shows "(fst y = NULL \<and> snd y = h) \<or> (fst y \<noteq> NULL \<and> store_size (fst y) sz h = Some (snd y))"
proof -
  let ?Q = "\<lambda>(cfg :: config) sz h (cur :: addr) y. mem h NULL = None \<longrightarrow>
    (fst y = NULL \<and> snd y = h) \<or> (fst y \<noteq> NULL \<and> store_size (fst y) sz h = Some (snd y))"
  have "?Q cfg sz h cur y"
  proof (rule search_ff_loop.raw_induct [where P = ?Q, OF _ res], goal_cases)
    case (1 loop cfg sz h cur y)
    show ?case
    proof
      assume nn: "mem h NULL = None"
      show "(fst y = NULL \<and> snd y = h) \<or>
            (fst y \<noteq> NULL \<and> store_size (fst y) sz h = Some (snd y))"
      proof (cases "cur \<noteq> FreeList cfg")
        case False
        with 1(2) show ?thesis by auto
      next
        case True
        with 1(2) obtain c where c: "mem h cur = Some c"
          by (auto split: bind_splits)
        with nn have ne: "cur \<noteq> NULL" by auto
        show ?thesis
        proof (cases "sz \<le> capacity c")
          case True
          with 1(2) c \<open>cur \<noteq> FreeList cfg\<close> ne show ?thesis
            by (auto split: bind_splits)
        next
          case False
          with 1(2) c \<open>cur \<noteq> FreeList cfg\<close> have "loop cfg sz h (next_b c) = Some y"
            by simp
          from 1(1) [OF this] nn show ?thesis by simp
        qed
      qed
    qed
  qed
  with nn show ?thesis by simp
qed

lemma free_list_search_ff_frame:
  "free_list_search_ff cfg sz h = Some (r, h') \<Longrightarrow> mem h NULL = None \<Longrightarrow>
   (r = NULL \<and> h' = h) \<or> (r \<noteq> NULL \<and> store_size r sz h = Some h')"
  using search_ff_loop_frame [of cfg sz h _ "(r, h')"]
  by (auto simp: free_list_search_ff_def split: bind_splits)

lemma free_list_search_bf_frame:
  "free_list_search_bf cfg sz h = Some (r, h') \<Longrightarrow>
   (r = NULL \<and> h' = h) \<or> (r \<noteq> NULL \<and> store_size r sz h = Some h')"
  by (auto simp: free_list_search_bf_def split: bind_splits if_splits)

lemma free_list_search_wf_frame:
  "free_list_search_wf cfg sz h = Some (r, h') \<Longrightarrow>
   (r = NULL \<and> h' = h) \<or> (r \<noteq> NULL \<and> store_size r sz h = Some h')"
  by (auto simp: free_list_search_wf_def split: bind_splits if_splits)

lemma free_list_search_cases:
  assumes "free_list_search cfg sz h = Some (r, h')" "mem h NULL = None"
  shows "(r = NULL \<and> h' = h) \<or>
         (r \<noteq> NULL \<and> (\<exists>h1. store_size r sz h = Some h1 \<and> h' = counter_add REUSES 1 h1))"
proof -
  from assms(1) obtain h1 where
    alg: "(if FIT cfg = 0 then free_list_search_ff cfg sz h
           else if FIT cfg = 1 then free_list_search_wf cfg sz h
           else if FIT cfg = 2 then free_list_search_bf cfg sz h
           else Some (NULL, h)) = Some (r, h1)"
    and h': "h' = (if r \<noteq> NULL then counter_add REUSES 1 h1 else h1)"
    by (auto simp: free_list_search_def split: bind_splits if_splits)
  have "(r = NULL \<and> h1 = h) \<or> (r \<noteq> NULL \<and> store_size r sz h = Some h1)"
    using alg assms(2) free_list_search_ff_frame [of cfg sz h r h1]
      free_list_search_bf_frame [of cfg sz h r h1] free_list_search_wf_frame [of cfg sz h r h1]
    by (auto split: if_splits)
  with h' show ?thesis by auto
qed

lemma free_list_search_total:
  assumes fl: "free_list cfg h bs" and nn: "mem h NULL = None"
  shows "\<exists>r h'. free_list_search cfg sz h = Some (r, h') \<and> (r = NULL \<or> r \<in> set bs) \<and>
           (FIT cfg \<le> 2 \<longrightarrow> (r = NULL \<longleftrightarrow> (\<forall>x\<in>set bs. \<not> sz \<le> cap h x)))"
proof -
  have n: "NULL \<notin> set bs" by (rule free_list_not_NULL [OF fl nn])
  have alg: "\<exists>r h'. (if FIT cfg = 0 then free_list_search_ff cfg sz h
           else if FIT cfg = 1 then free_list_search_wf cfg sz h
           else if FIT cfg = 2 then free_list_search_bf cfg sz h
           else Some (NULL, h)) = Some (r, h') \<and> (r = NULL \<or> r \<in> set bs) \<and>
           (FIT cfg \<le> 2 \<longrightarrow> (r = NULL \<longleftrightarrow> (\<forall>x\<in>set bs. \<not> sz \<le> cap h x)))"
  proof -
    consider "FIT cfg = 0" | "FIT cfg = 1" | "FIT cfg = 2" | "2 < FIT cfg" by linarith
    then show ?thesis
    proof cases
      case 1
      from search_ff_spec [OF fl, of sz] obtain r h' where
        "free_list_search_ff cfg sz h = Some (r, h')"
        "if \<forall>x\<in>set bs. \<not> sz \<le> cap h x then r = NULL \<and> h' = h
         else store_size r sz h = Some h' \<and>
            (\<exists>pre post. bs = pre @ r # post \<and> sz \<le> cap h r \<and> (\<forall>x\<in>set pre. \<not> sz \<le> cap h x))"
        by blast
      then show ?thesis using 1 n
        by (cases "\<forall>x\<in>set bs. \<not> sz \<le> cap h x") auto
    next
      case 2
      from search_wf_spec [OF fl nn, of sz] obtain r h' where
        "free_list_search_wf cfg sz h = Some (r, h')"
        "if \<forall>x\<in>set bs. \<not> sz \<le> cap h x then r = NULL \<and> h' = h
         else store_size r sz h = Some h' \<and>
            (\<exists>pre post. bs = pre @ r # post \<and> sz \<le> cap h r \<and>
              (\<forall>x\<in>set pre. sz \<le> cap h x \<longrightarrow> cap h x < cap h r) \<and>
              (\<forall>x\<in>set post. sz \<le> cap h x \<longrightarrow> cap h x \<le> cap h r))"
        by blast
      then show ?thesis using 2 n
        by (cases "\<forall>x\<in>set bs. \<not> sz \<le> cap h x") auto
    next
      case 3
      from search_bf_spec [OF fl nn, of sz] obtain r h' where
        "free_list_search_bf cfg sz h = Some (r, h')"
        "if \<forall>x\<in>set bs. \<not> sz \<le> cap h x then r = NULL \<and> h' = h
         else store_size r sz h = Some h' \<and>
            (\<exists>pre post. bs = pre @ r # post \<and> sz \<le> cap h r \<and>
              (\<forall>x\<in>set pre. sz \<le> cap h x \<longrightarrow> cap h r < cap h x) \<and>
              (\<forall>x\<in>set post. sz \<le> cap h x \<longrightarrow> cap h r \<le> cap h x))"
        by blast
      then show ?thesis using 3 n
        by (cases "\<forall>x\<in>set bs. \<not> sz \<le> cap h x") auto
    next
      case 4
      then show ?thesis by simp
    qed
  qed
  then obtain r h' where
    "(if FIT cfg = 0 then free_list_search_ff cfg sz h
           else if FIT cfg = 1 then free_list_search_wf cfg sz h
           else if FIT cfg = 2 then free_list_search_bf cfg sz h
           else Some (NULL, h)) = Some (r, h')" "r = NULL \<or> r \<in> set bs"
    "FIT cfg \<le> 2 \<longrightarrow> (r = NULL \<longleftrightarrow> (\<forall>x\<in>set bs. \<not> sz \<le> cap h x))"
    by blast
  then show ?thesis
    unfolding free_list_search_def by (cases "r = NULL") simp_all
qed

text \<open>
  Claim C10. For every request size and every setting of \<open>FIT\<close>, whenever
  \<open>free_list_search\<close> returns, the headers at all addresses other than the returned one
  are what they were; on a miss the state is unchanged altogether; on a hit the returned
  header differs from the old one in its size field only, which holds the request (so no
  link is written), and the break is where it was. On a well-formed free list the search
  does return, a member of the list or \<open>NULL\<close>, and for the three algorithms \<open>NULL\<close>
  exactly when no block has enough capacity.
\<close>

theorem free_list_search_frame:
  assumes nn: "mem h NULL = None"
  shows "(\<forall>r h'. free_list_search cfg sz h = Some (r, h') \<longrightarrow>
            (\<forall>a. a \<noteq> r \<longrightarrow> mem h' a = mem h a) \<and>
            (r = NULL \<longrightarrow> h' = h) \<and>
            (r \<noteq> NULL \<longrightarrow> (\<exists>b. mem h r = Some b \<and> mem h' r = Some (b\<lparr>size_b := sz\<rparr>))) \<and>
            brk h' = brk h \<and> heap_min h' = heap_min h \<and> heap_max h' = heap_max h) \<and>
         (\<forall>bs. free_list cfg h bs \<longrightarrow>
            (\<exists>r h'. free_list_search cfg sz h = Some (r, h') \<and> (r = NULL \<or> r \<in> set bs) \<and>
               (FIT cfg \<le> 2 \<longrightarrow> (r = NULL \<longleftrightarrow> (\<forall>x\<in>set bs. \<not> sz \<le> cap h x)))))"
proof (intro conjI allI impI)
  fix r h'
  assume res: "free_list_search cfg sz h = Some (r, h')"
  from free_list_search_cases [OF res nn]
  have c: "(r = NULL \<and> h' = h) \<or>
         (r \<noteq> NULL \<and> (\<exists>h1. store_size r sz h = Some h1 \<and> h' = counter_add REUSES 1 h1))" .
  { fix a assume "a \<noteq> r"
    with c show "mem h' a = mem h a"
      by (auto simp: store_size_def split: option.splits) }
  { assume "r = NULL" with c show "h' = h" by simp }
  { assume "r \<noteq> NULL"
    with c show "\<exists>b. mem h r = Some b \<and> mem h' r = Some (b\<lparr>size_b := sz\<rparr>)"
      by (auto simp: store_size_def split: option.splits) }
  from c show "brk h' = brk h"
    by (auto simp: store_size_def counter_add_def split: option.splits)
  from c show "heap_min h' = heap_min h"
    by (auto simp: store_size_def counter_add_def split: option.splits)
  from c show "heap_max h' = heap_max h"
    by (auto simp: store_size_def counter_add_def split: option.splits)
next
  fix bs assume "free_list cfg h bs"
  from free_list_search_total [OF this nn]
  show "\<exists>r h'. free_list_search cfg sz h = Some (r, h') \<and> (r = NULL \<or> r \<in> set bs) \<and>
               (FIT cfg \<le> 2 \<longrightarrow> (r = NULL \<longleftrightarrow> (\<forall>x\<in>set bs. \<not> sz \<le> cap h x)))" .
qed

theorem free_list_search_frame_witness:
  "mem three_free_blocks NULL = None \<and>
   free_list example_config three_free_blocks [8192, 8296, 8400] \<and>
   (\<exists>h'. free_list_search example_config 15 three_free_blocks = Some (8296, h') \<and>
      mem h' 8192 = mem three_free_blocks 8192 \<and>
      mem h' 8400 = mem three_free_blocks 8400 \<and>
      mem h' 4096 = mem three_free_blocks 4096 \<and>
      mem h' 8296 = Some \<lparr>capacity = 30, size_b = 15, prev = 8192, next_b = 8400\<rparr>)"
proof -
  let ?h = "three_free_blocks"
  have ff: "find (\<lambda>x. 15 \<le> cap ?h x) [8192, 8296, 8400] = Some 8296"
    by (simp add: cap_def three_free_blocks_def)
  obtain h' where h': "free_list_search example_config 15 ?h = Some (8296, h')"
    using free_list_search_ff_result [OF free_list_three_free_blocks, of 15] ff
    by (auto simp: free_list_search_def example_config_def store_size_def three_free_blocks_def NULL_def)
  from free_list_search_frame [OF three_free_blocks_NULL, of example_config 15] h'
  have "(\<forall>a. a \<noteq> 8296 \<longrightarrow> mem h' a = mem ?h a) \<and>
        (\<exists>b. mem ?h 8296 = Some b \<and> mem h' 8296 = Some (b\<lparr>size_b := 15\<rparr>))"
    by (auto simp: NULL_def)
  then show ?thesis
    using h' three_free_blocks_NULL free_list_three_free_blocks
    by (auto simp: three_free_blocks_def)
qed

section \<open>Inserting into the free list\<close>

lemma chain_path:
  "chain h (a # xs @ [z]) \<Longrightarrow> z \<notin> set xs \<Longrightarrow> \<exists>b. mem h a = Some b \<and> path h (next_b b) xs z"
proof (induction xs arbitrary: a)
  case Nil
  then show ?case by (auto simp: linked_def nexts_def)
next
  case (Cons x xs)
  from Cons.prems have "chain h (x # xs @ [z])" "z \<notin> set xs" by auto
  from Cons.IH [OF this] Cons.prems show ?case
    by (auto simp: linked_def nexts_def)
qed

lemma circular_free_list: "circular cfg h bs \<Longrightarrow> free_list cfg h bs"
  using chain_path [of h "FreeList cfg" bs "FreeList cfg"]
  by (auto simp: circular_def free_list_def)

lemma chain_cong:
  "(\<And>x. x \<in> set (butlast xs) \<Longrightarrow> nexts h' x = nexts h x) \<Longrightarrow>
   (\<And>x. x \<in> set (tl xs) \<Longrightarrow> prevs h' x = prevs h x) \<Longrightarrow>
   chain h' xs = chain h xs"
proof (induction h xs rule: chain.induct)
  case (1 h x y ys)
  have n: "nexts h' x = nexts h x"
    using 1(2) [of x] by simp
  have p: "prevs h' y = prevs h y"
    using 1(3) [of y] by simp
  have r: "chain h' (y # ys) = chain h (y # ys)"
    by (rule 1(1)) (use 1(2,3) in auto)
  show ?case by (simp add: linked_def n p r)
qed simp_all

lemma chain_append:
  "chain h (xs @ y # ys) = (chain h (xs @ [y]) \<and> chain h (y # ys))"
proof (induction xs)
  case Nil
  then show ?case by simp
next
  case (Cons x xs)
  then show ?case by (cases xs) auto
qed

lemma length_loop_path:
  "path h cur xs (FreeList cfg) \<Longrightarrow>
   length_loop cfg h n cur = Some (n + of_nat (length xs))"
proof (induction xs arbitrary: cur n)
  case Nil
  then show ?case by (subst length_loop.simps) simp
next
  case (Cons x xs)
  then show ?case
    by (subst length_loop.simps) (auto split: option.splits simp: algebra_simps)
qed

lemma free_list_length_eq:
  "free_list cfg h bs \<Longrightarrow> free_list_length cfg h = Some (of_nat (length bs))"
  by (auto simp: free_list_def free_list_length_def length_loop_path split: option.splits)

lemma block_merge_not_adjacent:
  "mem h dst = Some d \<Longrightarrow> \<not> adjacent cfg h dst src \<Longrightarrow> block_merge cfg dst src h = Some (False, h)"
  by (simp add: block_merge_def adjacent_def)

lemma insert_loop_skip:
  assumes "path h cur (pre @ rest) (FreeList cfg)" "mem h block = Some b"
    "\<forall>x\<in>set pre. \<not> adjacent cfg h block x \<and> \<not> adjacent cfg h x block"
  shows "insert_loop cfg block h cur = insert_loop cfg block h (hd (rest @ [FreeList cfg])) \<and>
         path h (hd (rest @ [FreeList cfg])) rest (FreeList cfg)"
  using assms
proof (induction pre arbitrary: cur)
  case Nil
  then show ?case by (cases rest) auto
next
  case (Cons x pre)
  from Cons.prems(1) obtain c where c: "cur = x" "x \<noteq> FreeList cfg" "mem h x = Some c"
    "path h (next_b c) (pre @ rest) (FreeList cfg)"
    by (auto split: option.splits)
  have na: "\<not> adjacent cfg h block x" "\<not> adjacent cfg h x block"
    using Cons.prems(3) by auto
  have step: "insert_loop cfg block h cur = insert_loop cfg block h (next_b c)"
    using c block_merge_not_adjacent [OF Cons.prems(2) na(1)]
      block_merge_not_adjacent [OF c(3) na(2)]
    by (subst insert_loop.simps) simp
  from Cons.IH [OF c(4) Cons.prems(2)] Cons.prems(3) step show ?case by simp
qed

lemma chain_snoc:
  "chain h (xs @ [y]) = (chain h xs \<and> (xs \<noteq> [] \<longrightarrow> linked h (last xs) y))"
proof (induction xs)
  case Nil
  then show ?case by simp
next
  case (Cons x xs)
  then show ?case by (cases xs) auto
qed

lemma chain_Cons:
  "chain h (x # ys) = (chain h ys \<and> (ys \<noteq> [] \<longrightarrow> linked h x (hd ys)))"
  by (cases ys) auto

lemma circular_tail:
  assumes "circular cfg h bs"
  shows "chain h (FreeList cfg # bs)" "linked h (last (FreeList cfg # bs)) (FreeList cfg)"
  using assms chain_snoc [of h "FreeList cfg # bs" "FreeList cfg"]
  by (simp_all add: circular_def)

lemma insert_loop_miss:
  assumes circ: "circular cfg h bs" and b: "mem h block = Some b"
    and na: "\<forall>x\<in>set bs. \<not> adjacent cfg h block x \<and> \<not> adjacent cfg h x block"
  shows "\<exists>f. mem h (FreeList cfg) = Some f \<and>
           insert_loop cfg block h (next_b f) = Some (False, h)"
proof -
  from circular_free_list [OF circ] obtain f where
    f: "mem h (FreeList cfg) = Some f" "path h (next_b f) bs (FreeList cfg)"
    by (auto simp: free_list_def split: option.splits)
  from insert_loop_skip [of h "next_b f" bs "[]" cfg block b] f b na
  have "insert_loop cfg block h (next_b f) = insert_loop cfg block h (FreeList cfg)"
    by simp
  also have "\<dots> = Some (False, h)"
    by (subst insert_loop.simps) simp
  finally show ?thesis using f by simp
qed

lemma free_list_insert_append:
  assumes circ: "circular cfg h bs" and b: "mem h block = Some b"
    and fresh: "block \<notin> set (FreeList cfg # bs)"
    and na: "\<forall>x\<in>set bs. \<not> adjacent cfg h block x \<and> \<not> adjacent cfg h x block"
  shows "\<exists>h'. free_list_insert cfg block h = Some h' \<and> circular cfg h' (bs @ [block]) \<and>
           caps h' = caps h \<and> sizes h' = sizes h \<and> Counters h' = Counters h \<and>
           brk h' = brk h \<and> heap_min h' = heap_min h \<and> heap_max h' = heap_max h"
proof -
  let ?fl = "FreeList cfg"
  define ta where "ta = last (?fl # bs)"
  from insert_loop_miss [OF circ b na] obtain f where
    f: "mem h ?fl = Some f" "insert_loop cfg block h (next_b f) = Some (False, h)"
    by blast
  from circular_tail [OF circ] have ch: "chain h (?fl # bs)" and lt: "linked h ta ?fl"
    by (simp_all add: ta_def)
  from lt f obtain t where t: "mem h ta = Some t" "next_b t = ?fl" "prev f = ta"
    by (auto simp: linked_def nexts_def prevs_def)
  have tf: "ta = ?fl \<Longrightarrow> t = f" using t f by simp
  have tin: "ta \<in> set (?fl # bs)" unfolding ta_def by (rule last_in_set) simp
  have ne: "block \<noteq> ?fl" "block \<noteq> ta"
    using fresh tin by (simp, blast)
  define h' where "h' = h\<lparr>mem := (mem h)(ta \<mapsto> t\<lparr>next_b := block\<rparr>,
      ?fl \<mapsto> (if ta = ?fl then t\<lparr>next_b := block\<rparr> else f)\<lparr>prev := block\<rparr>,
      block \<mapsto> b\<lparr>next_b := ?fl, prev := ta\<rparr>)\<rparr>"
  have res: "free_list_insert cfg block h = Some h'"
    using f t b ne
    by (simp add: free_list_insert_def store_next_def store_prev_def h'_def Let_def)
  have proj: "caps h' = caps h" "sizes h' = sizes h"
    using f t b tf by (auto simp: h'_def caps_def sizes_def fun_eq_iff)
  have env: "Counters h' = Counters h" "brk h' = brk h" "heap_min h' = heap_min h"
    "heap_max h' = heap_max h"
    by (simp_all add: h'_def)
  have nx: "nexts h' x = (if x = block then Some ?fl else if x = ta then Some block else nexts h x)" for x
    using f t b ne tf by (auto simp: h'_def nexts_def)
  have pv: "prevs h' x = (if x = block then Some ta else if x = ?fl then Some block else prevs h x)" for x
    using f t b ne tf by (auto simp: h'_def prevs_def)
  have d: "distinct (?fl # bs)" using circ by (simp add: circular_def)
  have bl: "butlast (?fl # bs) @ [ta] = ?fl # bs"
    unfolding ta_def by (rule append_butlast_last_id) simp
  have "chain h' (?fl # bs) = chain h (?fl # bs)"
  proof (rule chain_cong)
    fix x assume x: "x \<in> set (butlast (?fl # bs))"
    have "distinct (butlast (?fl # bs) @ [ta])" using d bl by simp
    with x have "x \<noteq> ta" by auto
    moreover have "x \<noteq> block" using x fresh by (metis in_set_butlastD)
    ultimately show "nexts h' x = nexts h x" by (simp add: nx)
  next
    fix x assume "x \<in> set (tl (?fl # bs))"
    then have "x \<noteq> ?fl" "x \<noteq> block" using d fresh by auto
    then show "prevs h' x = prevs h x" by (simp add: pv)
  qed
  with ch have c1: "chain h' (?fl # bs)" by simp
  have l1: "linked h' ta block" "linked h' block ?fl"
    using ne by (simp_all add: linked_def nx pv)
  have "chain h' ((?fl # bs @ [block]) @ [?fl])"
    unfolding chain_snoc [of h' "?fl # bs @ [block]"]
    using chain_snoc [of h' "?fl # bs" block] c1 l1 by (simp add: ta_def)
  then have "circular cfg h' (bs @ [block])"
    using d fresh by (auto simp: circular_def)
  with res proj env show ?thesis by blast
qed

lemma insert_loop_hit:
  assumes circ: "circular cfg h (pre @ c # post)" and b: "mem h block = Some b"
    and na: "\<forall>x\<in>set pre. \<not> adjacent cfg h block x \<and> \<not> adjacent cfg h x block"
  shows "\<exists>f cb. mem h (FreeList cfg) = Some f \<and> mem h c = Some cb \<and> c \<noteq> FreeList cfg \<and>
           insert_loop cfg block h (next_b f) = insert_loop cfg block h c"
proof -
  from circular_free_list [OF circ] obtain f where
    f: "mem h (FreeList cfg) = Some f" "path h (next_b f) (pre @ c # post) (FreeList cfg)"
    by (auto simp: free_list_def split: option.splits)
  from insert_loop_skip [of h "next_b f" pre "c # post" cfg block b] f b na
  have "insert_loop cfg block h (next_b f) = insert_loop cfg block h c"
    "path h c (c # post) (FreeList cfg)"
    by simp_all
  then show ?thesis using f by (auto split: option.splits)
qed

lemma circular_split:
  assumes "circular cfg h (pre @ c # post)"
  shows "chain h (FreeList cfg # pre)" "linked h (last (FreeList cfg # pre)) c"
    "linked h c (hd (post @ [FreeList cfg]))" "chain h (post @ [FreeList cfg])"
proof -
  let ?fl = "FreeList cfg"
  from assms have "chain h ((?fl # pre) @ c # (post @ [?fl]))"
    by (simp add: circular_def)
  then have a: "chain h ((?fl # pre) @ [c])" "chain h (c # (post @ [?fl]))"
    unfolding chain_append [of h "?fl # pre" c "post @ [?fl]"] by simp_all
  from a(1) show "chain h (?fl # pre)" "linked h (last (?fl # pre)) c"
    unfolding chain_snoc [of h "?fl # pre" c] by simp_all
  from a(2) show "linked h c (hd (post @ [?fl]))" "chain h (post @ [?fl])"
    unfolding chain_Cons [of h c "post @ [?fl]"] by simp_all
qed

lemma free_list_insert_absorbed:
  assumes circ: "circular cfg h (pre @ c # post)" and b: "mem h block = Some b"
    and fresh: "block \<notin> set (FreeList cfg # pre @ c # post)"
    and na: "\<forall>x\<in>set pre. \<not> adjacent cfg h block x \<and> \<not> adjacent cfg h x block"
    and adj: "\<not> adjacent cfg h block c" "adjacent cfg h c block"
  shows "\<exists>h' cb. free_list_insert cfg block h = Some h' \<and> circular cfg h' (pre @ c # post) \<and>
           mem h c = Some cb \<and>
           caps h' = (caps h)(c \<mapsto> capacity cb + ALIGN cfg (capacity b + sizeof_Block cfg)) \<and>
           sizes h' = sizes h \<and> nexts h' = nexts h \<and> prevs h' = prevs h \<and>
           Counters h' = (Counters h)(MERGES := Counters h MERGES + 1, BLOCKS := Counters h BLOCKS - 1) \<and>
           brk h' = brk h \<and> heap_min h' = heap_min h \<and> heap_max h' = heap_max h"
proof -
  from insert_loop_hit [OF circ b na] obtain f cb where
    f: "mem h (FreeList cfg) = Some f" and cb: "mem h c = Some cb" "c \<noteq> FreeList cfg"
    and loop: "insert_loop cfg block h (next_b f) = insert_loop cfg block h c"
    by blast
  define h' where "h' = counter_add BLOCKS (- 1) (counter_add MERGES 1
    (h\<lparr>mem := (mem h)(c \<mapsto> cb\<lparr>capacity := capacity cb + ALIGN cfg (capacity b + sizeof_Block cfg)\<rparr>)\<rparr>))"
  have m1: "block_merge cfg block c h = Some (False, h)"
    by (rule block_merge_not_adjacent [OF b adj(1)])
  have m2: "block_merge cfg c block h = Some (True, h')"
    using cb b adj(2) by (simp add: block_merge_def adjacent_def store_capacity_def h'_def)
  have "insert_loop cfg block h c = Some (True, h')"
    using cb m1 m2 by (subst insert_loop.simps) simp
  with loop f have res: "free_list_insert cfg block h = Some h'"
    by (simp add: free_list_insert_def)
  have proj: "caps h' = (caps h)(c \<mapsto> capacity cb + ALIGN cfg (capacity b + sizeof_Block cfg))"
    "sizes h' = sizes h" "nexts h' = nexts h" "prevs h' = prevs h"
    using cb by (auto simp: h'_def caps_def sizes_def nexts_def prevs_def fun_eq_iff)
  have env: "Counters h' = (Counters h)(MERGES := Counters h MERGES + 1, BLOCKS := Counters h BLOCKS - 1)"
    "brk h' = brk h" "heap_min h' = heap_min h" "heap_max h' = heap_max h"
    by (auto simp: h'_def counter_add_def fun_eq_iff)
  have "chain h' xs = chain h xs" for xs
    by (rule chain_cong) (simp_all add: proj)
  with circ have "circular cfg h' (pre @ c # post)"
    by (simp add: circular_def)
  with res cb proj env show ?thesis by blast
qed

lemma free_list_insert_absorb:
  assumes circ: "circular cfg h (pre @ c # post)" and b: "mem h block = Some b"
    and fresh: "block \<notin> set (FreeList cfg # pre @ c # post)"
    and na: "\<forall>x\<in>set pre. \<not> adjacent cfg h block x \<and> \<not> adjacent cfg h x block"
    and adj: "adjacent cfg h block c"
  shows "\<exists>h' cb. free_list_insert cfg block h = Some h' \<and> circular cfg h' (pre @ block # post) \<and>
           mem h c = Some cb \<and> mem h' c = Some cb \<and>
           caps h' = (caps h)(block \<mapsto> capacity b + ALIGN cfg (capacity cb + sizeof_Block cfg)) \<and>
           sizes h' = sizes h \<and>
           Counters h' = (Counters h)(MERGES := Counters h MERGES + 1, BLOCKS := Counters h BLOCKS - 1) \<and>
           brk h' = brk h \<and> heap_min h' = heap_min h \<and> heap_max h' = heap_max h"
proof -
  let ?fl = "FreeList cfg"
  define p where "p = last (?fl # pre)"
  define n where "n = hd (post @ [?fl])"
  from insert_loop_hit [OF circ b na] obtain f cb where
    f: "mem h ?fl = Some f" and cb: "mem h c = Some cb" "c \<noteq> ?fl"
    and loop: "insert_loop cfg block h (next_b f) = insert_loop cfg block h c"
    by blast
  from circular_split [OF circ] have ch: "chain h (?fl # pre)" "linked h p c" "linked h c n"
    "chain h (post @ [?fl])"
    by (simp_all add: p_def n_def)
  from ch(2,3) cb obtain pb nb where pn: "mem h p = Some pb" "mem h n = Some nb"
    "prev cb = p" "next_b cb = n"
    by (auto simp: linked_def nexts_def prevs_def)
  have d: "distinct (?fl # pre @ c # post)" using circ by (simp add: circular_def)
  have pin: "p \<in> set (?fl # pre)" unfolding p_def by (rule last_in_set) simp
  have nin: "n \<in> set (post @ [?fl])" unfolding n_def by (rule hd_in_set) simp
  have ne: "block \<noteq> c" "block \<noteq> p" "block \<noteq> n" "c \<noteq> p" "c \<noteq> n"
    using fresh d pin nin by auto
  have pnb: "p = n \<Longrightarrow> pb = nb" using pn by simp
  define newcap where "newcap = capacity b + ALIGN cfg (capacity cb + sizeof_Block cfg)"
  define h' where "h' = counter_add BLOCKS (- 1) (counter_add MERGES 1 h)
    \<lparr>mem := (mem h)(block \<mapsto> b\<lparr>capacity := newcap, prev := p, next_b := n\<rparr>,
                     p \<mapsto> pb\<lparr>next_b := block\<rparr>,
                     n \<mapsto> (if n = p then pb\<lparr>next_b := block\<rparr> else nb)\<lparr>prev := block\<rparr>)\<rparr>"
  have m1: "block_merge cfg block c h = Some (True, counter_add BLOCKS (- 1) (counter_add MERGES 1
      (h\<lparr>mem := (mem h)(block \<mapsto> b\<lparr>capacity := newcap\<rparr>)\<rparr>)))"
    using cb b adj by (simp add: block_merge_def adjacent_def store_capacity_def newcap_def)
  have "insert_loop cfg block h c = Some (True, h')"
    using cb m1 pn ne
    by (subst insert_loop.simps)
       (simp add: store_prev_def store_next_def h'_def counter_add_def fun_upd_twist)
  with loop f have res: "free_list_insert cfg block h = Some h'"
    by (simp add: free_list_insert_def)
  have proj: "caps h' = (caps h)(block \<mapsto> newcap)" "sizes h' = sizes h"
    using b pn ne pnb by (auto simp: h'_def caps_def sizes_def fun_eq_iff)
  have env: "Counters h' = (Counters h)(MERGES := Counters h MERGES + 1, BLOCKS := Counters h BLOCKS - 1)"
    "brk h' = brk h" "heap_min h' = heap_min h" "heap_max h' = heap_max h"
    by (auto simp: h'_def counter_add_def fun_eq_iff)
  have c': "mem h' c = Some cb" using cb ne by (simp add: h'_def)
  have nx: "nexts h' x = (if x = block then Some n else if x = p then Some block else nexts h x)" for x
    using b pn ne pnb by (auto simp: h'_def nexts_def)
  have pv: "prevs h' x = (if x = block then Some p else if x = n then Some block else prevs h x)" for x
    using b pn ne pnb by (auto simp: h'_def prevs_def)
  have bl: "butlast (?fl # pre) @ [p] = ?fl # pre"
    unfolding p_def by (rule append_butlast_last_id) simp
  have hl: "n # tl (post @ [?fl]) = post @ [?fl]"
    unfolding n_def by simp
  have "chain h' (?fl # pre) = chain h (?fl # pre)"
  proof (rule chain_cong)
    fix x assume x: "x \<in> set (butlast (?fl # pre))"
    have "distinct (butlast (?fl # pre) @ [p])" using d bl by simp
    with x have "x \<noteq> p" by auto
    moreover have "x \<noteq> block" using x fresh by (metis in_set_butlastD Un_iff list.set_intros(1,2) set_ConsD set_append)
    ultimately show "nexts h' x = nexts h x" by (simp add: nx)
  next
    fix x assume "x \<in> set (tl (?fl # pre))"
    then have "x \<noteq> n" "x \<noteq> block" using d fresh nin by auto
    then show "prevs h' x = prevs h x" by (simp add: pv)
  qed
  with ch have c1: "chain h' (?fl # pre)" by simp
  have "chain h' (post @ [?fl]) = chain h (post @ [?fl])"
  proof (rule chain_cong)
    fix x assume x: "x \<in> set (butlast (post @ [?fl]))"
    then have "x \<noteq> p" "x \<noteq> block" using d fresh pin by auto
    then show "nexts h' x = nexts h x" by (simp add: nx)
  next
    fix x assume x: "x \<in> set (tl (post @ [?fl]))"
    have "distinct (n # tl (post @ [?fl]))" using d hl by simp
    with x have "x \<noteq> n" by auto
    moreover have "x \<noteq> block" using x fresh
      by (metis hl list.set_intros(2) Un_iff set_append list.set_intros(1) empty_iff empty_set set_ConsD)
    ultimately show "prevs h' x = prevs h x" by (simp add: pv)
  qed
  with ch have c2: "chain h' (post @ [?fl])" by simp
  have l: "linked h' p block" "linked h' block n"
    using ne by (simp_all add: linked_def nx pv)
  have "chain h' ((?fl # pre) @ block # (post @ [?fl]))"
    unfolding chain_append [of h' "?fl # pre" block "post @ [?fl]"]
      chain_snoc [of h' "?fl # pre" block] chain_Cons [of h' block "post @ [?fl]"]
    using c1 c2 l by (simp add: p_def n_def)
  then have "circular cfg h' (pre @ block # post)"
    using d fresh by (auto simp: circular_def)
  with res cb c' proj env show ?thesis unfolding newcap_def by blast
qed

lemma adjacent_caps: "adjacent cfg h x y = (case caps h x of None \<Rightarrow> False | Some c \<Rightarrow> data cfg x + c = y)"
  by (simp add: adjacent_def caps_def split: option.splits)

lemma adjacent_cong: "caps h' = caps h \<Longrightarrow> adjacent cfg h' x y = adjacent cfg h x y"
  by (simp add: adjacent_caps)

lemma mem_caps: "mem h x \<noteq> None \<longleftrightarrow> caps h x \<noteq> None"
  by (simp add: caps_def)

lemma cap_caps: "mem h x = Some b \<Longrightarrow> cap h x = capacity b"
  by (simp add: cap_def)

lemma map_replace:
  "c \<notin> set pre \<Longrightarrow> c \<notin> set post \<Longrightarrow>
   map (\<lambda>x. if x = c then block else x) (pre @ c # post) = pre @ block # post"
proof -
  have "map (\<lambda>x. if x = c then block else x) ys = ys" if "c \<notin> set ys" for ys
    using that by (induction ys) auto
  then show "c \<notin> set pre \<Longrightarrow> c \<notin> set post \<Longrightarrow>
   map (\<lambda>x. if x = c then block else x) (pre @ c # post) = pre @ block # post"
    by simp
qed

lemma circular_links:
  assumes "circular cfg h (pre @ c # post)"
  shows "prevs h c = Some (last (FreeList cfg # pre))" "nexts h c = Some (hd (post @ [FreeList cfg]))"
  using circular_split [OF assms] by (simp_all add: linked_def)

text \<open>
  Claim C5. Let the free list be the circular list of \<open>bs\<close> and let \<open>block\<close> be a block
  outside it. \<open>free_list_insert\<close> returns, and its effect is decided by the first member
  \<open>c\<close> of the list, in list order, for which \<open>block_merge block c\<close> or
  \<open>block_merge c block\<close> succeeds. If \<open>block\<close> absorbs \<open>c\<close>, the list is \<open>bs\<close> with
  \<open>block\<close> in the place of \<open>c\<close>, between the former neighbours of \<open>c\<close>; if \<open>c\<close> absorbs
  \<open>block\<close>, the list and all links are as before. In both cases exactly one merge is
  counted and only the survivor's capacity changes: nothing further is merged. If there
  is no such member, \<open>block\<close> is appended as the new tail, linked between the previous
  tail and the sentinel, and no capacity changes.
\<close>

theorem free_list_insert_coalesce:
  assumes circ: "circular cfg h bs" and b: "mem h block = Some b"
    and fresh: "block \<notin> set (FreeList cfg # bs)"
  shows "\<exists>h'. free_list_insert cfg block h = Some h' \<and> sizes h' = sizes h \<and> brk h' = brk h \<and>
    (case find (\<lambda>c. adjacent cfg h block c \<or> adjacent cfg h c block) bs of
       None \<Rightarrow>
         circular cfg h' (bs @ [block]) \<and>
         prevs h' block = Some (last (FreeList cfg # bs)) \<and> nexts h' block = Some (FreeList cfg) \<and>
         caps h' = caps h \<and> Counters h' = Counters h
     | Some c \<Rightarrow>
         (if adjacent cfg h block c
          then circular cfg h' (map (\<lambda>x. if x = c then block else x) bs) \<and>
               prevs h' block = prevs h c \<and> nexts h' block = nexts h c \<and>
               caps h' = (caps h)(block \<mapsto> capacity b + ALIGN cfg (cap h c + sizeof_Block cfg))
          else circular cfg h' bs \<and> prevs h' = prevs h \<and> nexts h' = nexts h \<and>
               caps h' = (caps h)(c \<mapsto> cap h c + ALIGN cfg (capacity b + sizeof_Block cfg))) \<and>
         Counters h' = (Counters h)(MERGES := Counters h MERGES + 1,
                                    BLOCKS := Counters h BLOCKS - 1))"
proof (cases "find (\<lambda>c. adjacent cfg h block c \<or> adjacent cfg h c block) bs")
  case None
  then have na: "\<forall>x\<in>set bs. \<not> adjacent cfg h block x \<and> \<not> adjacent cfg h x block"
    by (auto simp: find_None_iff)
  from free_list_insert_append [OF circ b fresh na] obtain h' where
    h': "free_list_insert cfg block h = Some h'" "circular cfg h' (bs @ [block])"
      "caps h' = caps h" "sizes h' = sizes h" "Counters h' = Counters h" "brk h' = brk h"
    by blast
  from circular_links [of cfg h' bs block "[]"] h'(2)
  have "prevs h' block = Some (last (FreeList cfg # bs))" "nexts h' block = Some (FreeList cfg)"
    by simp_all
  with h' None show ?thesis by simp
next
  case (Some c)
  from find_split [OF Some] obtain pre post where
    sp: "bs = pre @ c # post" "adjacent cfg h block c \<or> adjacent cfg h c block"
      "\<forall>y\<in>set pre. \<not> (adjacent cfg h block y \<or> adjacent cfg h y block)"
    by blast
  have d: "distinct (FreeList cfg # bs)" using circ by (simp add: circular_def)
  have rep: "map (\<lambda>x. if x = c then block else x) bs = pre @ block # post"
    unfolding sp(1) using d sp(1) by (intro map_replace) auto
  have circ': "circular cfg h (pre @ c # post)" using circ sp(1) by simp
  have fresh': "block \<notin> set (FreeList cfg # pre @ c # post)" using fresh sp(1) by simp
  have na: "\<forall>x\<in>set pre. \<not> adjacent cfg h block x \<and> \<not> adjacent cfg h x block"
    using sp(3) by blast
  show ?thesis
  proof (cases "adjacent cfg h block c")
    case True
    from free_list_insert_absorb [OF circ' b fresh' na True] obtain h' cb where
      h': "free_list_insert cfg block h = Some h'" "circular cfg h' (pre @ block # post)"
        "mem h c = Some cb"
        "caps h' = (caps h)(block \<mapsto> capacity b + ALIGN cfg (capacity cb + sizeof_Block cfg))"
        "sizes h' = sizes h"
        "Counters h' = (Counters h)(MERGES := Counters h MERGES + 1, BLOCKS := Counters h BLOCKS - 1)"
        "brk h' = brk h"
      by blast
    have "prevs h' block = prevs h c" "nexts h' block = nexts h c"
      using circular_links [OF h'(2)] circular_links [OF circ'] by simp_all
    with h' Some True rep show ?thesis by (simp add: cap_caps)
  next
    case False
    with sp(2) have adj: "adjacent cfg h c block" by simp
    from free_list_insert_absorbed [OF circ' b fresh' na False adj] obtain h' cb where
      h': "free_list_insert cfg block h = Some h'" "circular cfg h' (pre @ c # post)"
        "mem h c = Some cb"
        "caps h' = (caps h)(c \<mapsto> capacity cb + ALIGN cfg (capacity b + sizeof_Block cfg))"
        "sizes h' = sizes h" "nexts h' = nexts h" "prevs h' = prevs h"
        "Counters h' = (Counters h)(MERGES := Counters h MERGES + 1, BLOCKS := Counters h BLOCKS - 1)"
        "brk h' = brk h"
      by blast
    with Some False sp(1) show ?thesis by (simp add: cap_caps)
  qed
qed

lemma circular_one_free_one_used: "circular example_config one_free_one_used [8192]"
  by (simp add: circular_def example_config_def one_free_one_used_def linked_def nexts_def prevs_def)

theorem free_list_insert_coalesce_witness:
  "circular example_config one_free_one_used [8192] \<and>
   adjacent example_config one_free_one_used 8192 8240 \<and>
   (\<exists>h'. free_list_insert example_config 8240 one_free_one_used = Some h' \<and>
      circular example_config h' [8192] \<and>
      caps h' = (caps one_free_one_used)(8192 \<mapsto> 72) \<and>
      Counters h' MERGES = 1)"
proof -
  have adj: "adjacent example_config one_free_one_used 8192 8240"
    "\<not> adjacent example_config one_free_one_used 8240 8192"
    by (simp_all add: adjacent_def example_config_def one_free_one_used_def data_def)
  have c: "cap one_free_one_used 8192 = 16"
    by (simp add: cap_def one_free_one_used_def)
  have a: "ALIGN example_config (24 + sizeof_Block example_config) = 56"
    by (simp add: ALIGN_def example_config_def)
  from free_list_insert_coalesce [OF circular_one_free_one_used, of 8240
      "\<lparr>capacity = 24, size_b = 24, prev = 8240, next_b = 8240\<rparr>"]
  show ?thesis
    using adj c a circular_one_free_one_used
    by (auto simp: one_free_one_used_def example_config_def)
qed

lemma circular_length:
  "circular cfg h bs \<Longrightarrow> free_list_length cfg h = Some (of_nat (length bs))"
  by (rule free_list_length_eq [OF circular_free_list])

lemma distinct_length_word:
  fixes xs :: "addr list"
  assumes "distinct xs" "z \<notin> set xs"
  shows "length xs < 2 ^ 64"
proof -
  have "card (set xs) < card (UNIV :: addr set)"
    by (rule psubset_card_mono) (use assms(2) in auto)
  then show ?thesis
    using assms(1) by (simp add: distinct_card card_word)
qed

lemma insert_all_append:
  assumes "circular cfg h bs" "distinct (bs @ xs)" "FreeList cfg \<notin> set xs"
    "\<forall>x\<in>set xs. mem h x \<noteq> None"
    "\<forall>x\<in>set (bs @ xs). \<forall>y\<in>set (bs @ xs). x \<noteq> y \<longrightarrow> \<not> adjacent cfg h x y"
  shows "\<exists>h'. insert_all cfg xs h = Some h' \<and> circular cfg h' (bs @ xs)"
  using assms
proof (induction xs arbitrary: h bs)
  case Nil
  then show ?case by simp
next
  case (Cons x xs)
  from Cons.prems(4) obtain b where b: "mem h x = Some b" by auto
  have fresh: "x \<notin> set (FreeList cfg # bs)" using Cons.prems(2,3) by auto
  have na: "\<forall>y\<in>set bs. \<not> adjacent cfg h x y \<and> \<not> adjacent cfg h y x"
    using Cons.prems(2,5) by auto
  from free_list_insert_append [OF Cons.prems(1) b fresh na] obtain h1 where
    h1: "free_list_insert cfg x h = Some h1" "circular cfg h1 (bs @ [x])" "caps h1 = caps h"
    by blast
  have "\<exists>h'. insert_all cfg xs h1 = Some h' \<and> circular cfg h' ((bs @ [x]) @ xs)"
  proof (rule Cons.IH [OF h1(2)])
    show "distinct ((bs @ [x]) @ xs)" using Cons.prems(2) by simp
    show "FreeList cfg \<notin> set xs" using Cons.prems(3) by simp
    show "\<forall>y\<in>set xs. mem h1 y \<noteq> None"
      using Cons.prems(4) unfolding mem_caps h1(3) by simp
    show "\<forall>u\<in>set ((bs @ [x]) @ xs). \<forall>v\<in>set ((bs @ [x]) @ xs). u \<noteq> v \<longrightarrow> \<not> adjacent cfg h1 u v"
      using Cons.prems(5) by (simp add: adjacent_cong [OF h1(3)])
  qed
  with h1(1) show ?case by simp
qed

lemma insert_all_pair:
  assumes circ: "circular cfg h []" and ab: "a \<noteq> b" "FreeList cfg \<notin> {a, b}"
    "mem h a \<noteq> None" "mem h b \<noteq> None"
    and adj: "adjacent cfg h a b \<or> adjacent cfg h b a"
  shows "\<exists>h' s. insert_all cfg [a, b] h = Some h' \<and> circular cfg h' [s]"
proof -
  from ab obtain ba bb where m: "mem h a = Some ba" "mem h b = Some bb" by auto
  have "a \<notin> set (FreeList cfg # [])" using ab by auto
  from free_list_insert_append [OF circ m(1) this] obtain h1 where
    h1: "free_list_insert cfg a h = Some h1" "circular cfg h1 ([] @ [a])" "caps h1 = caps h"
    by auto
  from m(2) h1(3) obtain bb1 where bb1: "mem h1 b = Some bb1"
    using mem_caps [of h1 b] mem_caps [of h b] by auto
  have c1: "circular cfg h1 ([] @ a # [])" using h1(2) by simp
  have fresh: "b \<notin> set (FreeList cfg # [] @ a # [])" using ab by auto
  have adj1: "adjacent cfg h1 a b \<or> adjacent cfg h1 b a"
    using adj by (simp add: adjacent_cong [OF h1(3)])
  show ?thesis
  proof (cases "adjacent cfg h1 b a")
    case True
    from free_list_insert_absorb [OF c1 bb1 fresh _ True] obtain h' where
      "free_list_insert cfg b h1 = Some h'" "circular cfg h' ([] @ b # [])"
      by auto
    with h1(1) show ?thesis by auto
  next
    case False
    with adj1 have "adjacent cfg h1 a b" by simp
    from free_list_insert_absorbed [OF c1 bb1 fresh _ False this] obtain h' where
      "free_list_insert cfg b h1 = Some h'" "circular cfg h' ([] @ a # [])"
      by auto
    with h1(1) show ?thesis by auto
  qed
qed

text \<open>
  Claim C7. Starting from an empty free list, inserting \<open>k\<close> distinct blocks no two of
  which are physically adjacent gives a list of length \<open>k\<close>; inserting two physically
  adjacent blocks one after the other gives a list of length 1.
\<close>

theorem free_list_length_after_inserts:
  assumes circ: "circular cfg h []" and d: "distinct xs" and nfl: "FreeList cfg \<notin> set xs"
    and m: "\<forall>x\<in>set xs. mem h x \<noteq> None"
  shows "((\<forall>x\<in>set xs. \<forall>y\<in>set xs. x \<noteq> y \<longrightarrow> \<not> adjacent cfg h x y) \<longrightarrow>
            (\<exists>h' n. insert_all cfg xs h = Some h' \<and> free_list_length cfg h' = Some n \<and>
                     unat n = length xs)) \<and>
         (\<forall>a b. xs = [a, b] \<and> (adjacent cfg h a b \<or> adjacent cfg h b a) \<longrightarrow>
            (\<exists>h'. insert_all cfg xs h = Some h' \<and> free_list_length cfg h' = Some 1))"
proof (intro conjI impI allI)
  assume na: "\<forall>x\<in>set xs. \<forall>y\<in>set xs. x \<noteq> y \<longrightarrow> \<not> adjacent cfg h x y"
  from insert_all_append [OF circ, of xs] d nfl m na obtain h' where
    h': "insert_all cfg xs h = Some h'" "circular cfg h' xs"
    by auto
  have "length xs < 2 ^ 64" by (rule distinct_length_word [OF d nfl])
  then have "unat (of_nat (length xs) :: size_t) = length xs"
    by (intro of_nat_inverse) simp_all
  with h' circular_length [OF h'(2)]
  show "\<exists>h' n. insert_all cfg xs h = Some h' \<and> free_list_length cfg h' = Some n \<and>
                     unat n = length xs"
    by blast
next
  fix a b
  assume ab: "xs = [a, b] \<and> (adjacent cfg h a b \<or> adjacent cfg h b a)"
  with d nfl m have "a \<noteq> b" "FreeList cfg \<notin> {a, b}" "mem h a \<noteq> None" "mem h b \<noteq> None"
    by auto
  from insert_all_pair [OF circ this] ab obtain h' s where
    h': "insert_all cfg [a, b] h = Some h'" "circular cfg h' [s]"
    by blast
  from circular_length [OF h'(2)] h'(1) ab
  show "\<exists>h'. insert_all cfg xs h = Some h' \<and> free_list_length cfg h' = Some 1"
    by simp
qed

theorem free_list_length_after_inserts_witness:
  "circular example_config spaced_blocks [] \<and>
   \<not> adjacent example_config spaced_blocks 8192 8296 \<and>
   \<not> adjacent example_config spaced_blocks 8296 8192 \<and>
   (\<exists>h' n. insert_all example_config [8192, 8296] spaced_blocks = Some h' \<and>
           free_list_length example_config h' = Some n \<and> unat n = 2) \<and>
   circular example_config two_blocks [] \<and>
   adjacent example_config two_blocks 8192 8240 \<and>
   (\<exists>h'. insert_all example_config [8192, 8240] two_blocks = Some h' \<and>
         free_list_length example_config h' = Some 1)"
proof -
  have c1: "circular example_config spaced_blocks []"
    by (simp add: circular_def example_config_def spaced_blocks_def linked_def nexts_def prevs_def)
  have c2: "circular example_config two_blocks []"
    by (simp add: circular_def example_config_def two_blocks_def linked_def nexts_def prevs_def)
  have n1: "\<not> adjacent example_config spaced_blocks 8192 8296"
    "\<not> adjacent example_config spaced_blocks 8296 8192"
    by (simp_all add: adjacent_def example_config_def spaced_blocks_def data_def)
  have a2: "adjacent example_config two_blocks 8192 8240"
    by (simp add: adjacent_def example_config_def two_blocks_def data_def)
  have f: "FreeList example_config = 4096" by (simp add: example_config_def)
  have m1: "\<forall>x\<in>set [8192, 8296]. mem spaced_blocks x \<noteq> None"
    by (simp add: spaced_blocks_def)
  have m2: "\<forall>x\<in>set [8192, 8240]. mem two_blocks x \<noteq> None"
    by (simp add: two_blocks_def)
  have "\<exists>h' n. insert_all example_config [8192, 8296] spaced_blocks = Some h' \<and>
           free_list_length example_config h' = Some n \<and> unat n = length [8192, 8296 :: addr]"
    using free_list_length_after_inserts [OF c1 _ _ m1] n1 f by simp
  then obtain h' n where "insert_all example_config [8192, 8296] spaced_blocks = Some h'"
    "free_list_length example_config h' = Some n" "unat n = 2"
    by auto
  then have p1: "\<exists>h' n. insert_all example_config [8192, 8296] spaced_blocks = Some h' \<and>
           free_list_length example_config h' = Some n \<and> unat n = 2"
    by blast
  have p2: "\<exists>h'. insert_all example_config [8192, 8240] two_blocks = Some h' \<and>
         free_list_length example_config h' = Some 1"
    using free_list_length_after_inserts [OF c2 _ _ m2] a2 f by simp
  from c1 c2 n1 a2 p1 p2 show ?thesis by simp
qed

section \<open>The invariant of sizes and capacities\<close>






lemma heap_inv_counter_add [simp]: "heap_inv cfg (counter_add c n h) = heap_inv cfg h"
  by (simp add: heap_inv_def block_ok_def counter_add_def)





































end
